theory Spec2Isabelle
  imports Main "HOL-Library.AList" "HOL-Library.Sublist"
begin

section \<open>Data of the agent's session engine\<close>

text \<open>
  The development follows \<^verbatim>\<open>cmd/agent/app/session.go\<close> and
  \<^verbatim>\<open>cmd/agent/app/endpoints.go\<close>. A session is shared by several
  goroutines: the closing watcher and the idle ticker spawned by \<^verbatim>\<open>Run\<close>, one
  watcher per connection spawned by \<^verbatim>\<open>addConnection\<close>, and the goroutines of
  the routing layer that call \<^verbatim>\<open>Connect\<close> and \<^verbatim>\<open>Cancel\<close>. Each goroutine
  is a program counter over the source lines; one step of the system is one step of one
  goroutine, so every interleaving of the source is a sequence of steps.
\<close>

datatype error =
    New string
  | Wrapped string error
  | Joined "error list"
  | External string

definition ErrClosed :: error where
  "ErrClosed = New ''session is closed''"

record ConnectionData =
  Id_conn :: string
  Pid :: string
  ProcessName :: string

datatype event =
    SessionClosed string
  | ConnectionCreated string ConnectionData
  | ConnectionClosed string ConnectionData int

datatype task = ParentGroup | ParentCtx | Closer | Ticker | Caller nat | Watcher nat

datatype obs =
    SetClosed
  | WaitReturned
  | GpuRelease
  | Signal task
  | Emit event

datatype timer = NoTimer | Armed nat | Stopped

text \<open>
  Program counters: the comment of a constructor names what the goroutine executes next.
  Values that the goroutine holds in local variables are arguments of the constructor.
\<close>

datatype closer_pc =
    CL_None  \<comment> \<open>not spawned: \<^verbatim>\<open>Run\<close> has not been called\<close>
  | CL_Select  \<comment> \<open>the \<^verbatim>\<open>select\<close> of lines 89-96\<close>
  | CL_Cancel_Enter  \<comment> \<open>line 91, \<^verbatim>\<open>Cancel\<close> waiting for the lock (line 143)\<close>
  | CL_Cancel_Body bool  \<comment> \<open>lines 144-146 under the lock, with the flag that was read\<close>
  | CL_SetClosed  \<comment> \<open>line 98\<close>
  | CL_Wait  \<comment> \<open>line 100\<close>
  | CL_CloseChanged "error option"  \<comment> \<open>line 102, holding the result of \<^verbatim>\<open>Wait\<close>\<close>
  | CL_CloseClosing "error option"  \<comment> \<open>line 103\<close>
  | CL_Release "error option"  \<comment> \<open>line 105\<close>
  | CL_Emit "error option"  \<comment> \<open>line 107\<close>
  | CL_Done "error option"  \<comment> \<open>returned, line 109\<close>

datatype ticker_pc =
    T_None  \<comment> \<open>not spawned\<close>
  | T_Start  \<comment> \<open>line 114\<close>
  | T_Select  \<comment> \<open>the \<^verbatim>\<open>select\<close> of line 119\<close>
  | T_Cancel_Enter  \<comment> \<open>line 124, \<^verbatim>\<open>Cancel\<close> waiting for the lock\<close>
  | T_Cancel_Body bool  \<comment> \<open>lines 144-146 under the lock\<close>
  | T_Eval  \<comment> \<open>lines 127-131, after a receive from \<^verbatim>\<open>connectionsChanged\<close>\<close>
  | T_Done  \<comment> \<open>returned, line 135\<close>

datatype caller_pc =
    C_Idle  \<comment> \<open>no call in progress\<close>
  | C_Enter ConnectionData  \<comment> \<open>\<^verbatim>\<open>Connect\<close>, line 153: waiting for the lock\<close>
  | C_Get ConnectionData  \<comment> \<open>line 155, the flag was false\<close>
  | C_Start ConnectionData  \<comment> \<open>\<^verbatim>\<open>addConnection\<close>, lines 176-177\<close>
  | C_Spawn ConnectionData nat  \<comment> \<open>line 182; the number is the connection's unit under the task manager\<close>
  | C_Set ConnectionData  \<comment> \<open>line 197\<close>
  | C_Send ConnectionData  \<comment> \<open>line 198\<close>
  | C_Created ConnectionData  \<comment> \<open>line 200\<close>
  | C_Attach ConnectionData  \<comment> \<open>line 164, on the connection found or created\<close>
  | C_Return "error option"  \<comment> \<open>leaving the closure of line 153 with this result\<close>
  | C_Done "error option"  \<comment> \<open>\<^verbatim>\<open>Connect\<close> has returned this result\<close>
  | K_Enter  \<comment> \<open>\<^verbatim>\<open>Cancel\<close>, line 143: waiting for the lock\<close>
  | K_Body bool  \<comment> \<open>lines 144-146 under the lock\<close>
  | K_Done  \<comment> \<open>\<^verbatim>\<open>Cancel\<close> has returned\<close>

datatype conn_task =
    Started ConnectionData  \<comment> \<open>the connection's work runs, its watcher is not spawned yet\<close>
  | W_Recv ConnectionData  \<comment> \<open>watcher at line 183, waiting for the exit code\<close>
  | W_Delete ConnectionData int  \<comment> \<open>lines 187-189, holding the exit code\<close>
  | W_Send ConnectionData int  \<comment> \<open>line 190\<close>
  | W_Emit ConnectionData int  \<comment> \<open>line 192\<close>
  | W_Done  \<comment> \<open>returned, line 194\<close>

text \<open>
  The state of a session and of the goroutines that share it. \<open>closed_lock\<close> is the
  holder of the lock that guards \<open>closed\<close>; \<open>connections\<close> is the connection map;
  \<open>tm_cancelled\<close> says that the context of the session's task manager is done and
  \<open>group_cancelled\<close> that the context of the group given to \<^verbatim>\<open>Run\<close> is;
  \<open>trace\<close> records, in order, what the event listener and the GPU reservation are
  asked to do, together with the writes of the flag, the returns of \<^verbatim>\<open>Wait\<close> and
  the completed signals.
\<close>

record system =
  Id_session :: string
  Version :: string
  Persistent :: bool
  juicePath :: string
  closed :: bool
  closed_lock :: "task option"
  connections :: "(string \<times> ConnectionData) list"
  connectionsChanged_closed :: bool
  sessionClosing_closed :: bool
  tm_cancelled :: bool
  tm_tasks :: "conn_task list"
  group_cancelled :: bool
  closer :: closer_pc
  ticker :: ticker_pc
  timer :: timer
  callers :: "nat \<Rightarrow> caller_pc"
  trace :: "obs list"
  panicked :: bool

text \<open>What a step reads from outside the session.\<close>

datatype input =
    NoIn
  | ConnectIn ConnectionData  \<comment> \<open>the routing layer calls \<^verbatim>\<open>Connect\<close>\<close>
  | CancelIn  \<comment> \<open>the routing layer calls \<^verbatim>\<open>Cancel\<close>\<close>
  | ErrIn "error option"  \<comment> \<open>the result of \<^verbatim>\<open>Start\<close>, \<^verbatim>\<open>connection.Connect\<close> or \<^verbatim>\<open>Wait\<close>\<close>
  | ExitIn int  \<comment> \<open>the connection delivers its exit code\<close>
  | ExitClosedIn  \<comment> \<open>the exit-code channel was closed instead\<close>
  | SelParent  \<comment> \<open>line 90\<close>
  | SelOwn  \<comment> \<open>line 94\<close>
  | SelClosing  \<comment> \<open>line 120\<close>
  | SelTick  \<comment> \<open>line 123\<close>
  | SelChanged  \<comment> \<open>line 126, on the closed channel\<close>

section \<open>The collaborators of a session\<close>

text \<open>
  Modelled from the spec: \<^verbatim>\<open>utilities.ConcurrentVariable\<close> (the guarded shared
  state of section 4.3) is not among the sources. \<^verbatim>\<open>With\<close>,
  \<^verbatim>\<open>WithReturn\<close> and \<^verbatim>\<open>Set\<close> run their body under one exclusive lock:
  exactly one accessor executes at a time, and an accessor that finds the lock taken waits.
\<close>

definition lock_free :: "system \<Rightarrow> bool" where
  "lock_free s \<longleftrightarrow> closed_lock s = None"

definition lock :: "task \<Rightarrow> system \<Rightarrow> system" where
  "lock w s = s\<lparr>closed_lock := Some w\<rparr>"

definition unlock :: "system \<Rightarrow> system" where
  "unlock s = s\<lparr>closed_lock := None\<rparr>"

text \<open>
  Modelled from the spec: \<^verbatim>\<open>task.TaskManager\<close> (the task group of section 4.1) is
  not among the sources. \<^verbatim>\<open>Cancel\<close> is idempotent and marks the scope done;
  \<^verbatim>\<open>Wait\<close> returns once every unit spawned under the group has returned. The
  units under the session's group are, per started connection, the connection's own work
  and its watcher; \<open>tm_tasks\<close> holds one entry for each started connection, and the entry
  is \<open>W_Done\<close> when both have returned.
\<close>

definition tm_Cancel :: "system \<Rightarrow> system" where
  "tm_Cancel s = s\<lparr>tm_cancelled := True\<rparr>"

definition tm_Wait_ready :: "system \<Rightarrow> bool" where
  "tm_Wait_ready s \<longleftrightarrow> list_all (\<lambda>w. w = W_Done) (tm_tasks s)"

text \<open>
  Modelled from the spec: \<^verbatim>\<open>utilities.ConcurrentMap\<close> (the concurrent associative
  store of section 4.2) is not among the sources: a map with unique keys whose single
  operations are atomic.
\<close>

definition conn_Get :: "string \<Rightarrow> system \<Rightarrow> ConnectionData option" where
  "conn_Get k s = map_of (connections s) k"

definition conn_Set :: "string \<Rightarrow> ConnectionData \<Rightarrow> system \<Rightarrow> system" where
  "conn_Set k v s = s\<lparr>connections := AList.update k v (connections s)\<rparr>"

definition conn_Delete :: "string \<Rightarrow> system \<Rightarrow> system" where
  "conn_Delete k s = s\<lparr>connections := AList.delete k (connections s)\<rparr>"

definition conn_Empty :: "system \<Rightarrow> bool" where
  "conn_Empty s \<longleftrightarrow> connections s = []"

definition conn_Len :: "system \<Rightarrow> nat" where
  "conn_Len s = length (connections s)"

text \<open>The event listener and the GPU reservation are observed through the trace.\<close>

definition record_obs :: "obs \<Rightarrow> system \<Rightarrow> system" where
  "record_obs x s = s\<lparr>trace := trace s @ [x]\<rparr>"

text \<open>
  \<^verbatim>\<open>connectionsChanged\<close> is made by \<^verbatim>\<open>make(chan struct{})\<close>: an unbuffered
  channel. A send completes only together with a receive; the only receiver in the
  sources is the ticker's \<^verbatim>\<open>select\<close> (line 126). A send on a closed channel panics.
\<close>

definition send_changed :: "task \<Rightarrow> (system \<Rightarrow> system) \<Rightarrow> system \<Rightarrow> system option" where
  "send_changed w k s =
     (if connectionsChanged_closed s then Some (s\<lparr>panicked := True\<rparr>)
      else if ticker s = T_Select then Some (k (record_obs (Signal w) (s\<lparr>ticker := T_Eval\<rparr>)))
      else None)"

section \<open>Session: construction, Run, Cancel\<close>

definition newSession :: "string \<Rightarrow> string \<Rightarrow> bool \<Rightarrow> string \<Rightarrow> system" where
  "newSession ident version persistent path =
     \<lparr> Id_session = ident, Version = version, Persistent = persistent, juicePath = path,
       closed = False, closed_lock = None, connections = [],
       connectionsChanged_closed = False, sessionClosing_closed = False,
       tm_cancelled = False, tm_tasks = [], group_cancelled = False,
       closer = CL_None, ticker = T_None, timer = NoTimer,
       callers = (\<lambda>_. C_Idle), trace = [], panicked = False \<rparr>"

text \<open>\<^verbatim>\<open>Run\<close> (lines 87-140) spawns the closing watcher, and the ticker unless the session is persistent.\<close>

definition Run :: "system \<Rightarrow> system" where
  "Run s =
     (let s1 = s\<lparr>closer := CL_Select\<rparr>
      in if \<not> Persistent s1 then s1\<lparr>ticker := T_Start\<rparr> else s1)"

text \<open>The body that \<^verbatim>\<open>Cancel\<close> (lines 142-148) runs under the lock, given the flag it read.\<close>

definition Cancel_body :: "bool \<Rightarrow> system \<Rightarrow> system" where
  "Cancel_body v s = (if \<not> v then tm_Cancel s else s)"

section \<open>One step of each goroutine\<close>

definition goto_caller :: "nat \<Rightarrow> caller_pc \<Rightarrow> system \<Rightarrow> system" where
  "goto_caller t p s = s\<lparr>callers := (callers s)(t := p)\<rparr>"

definition goto_task :: "nat \<Rightarrow> conn_task \<Rightarrow> system \<Rightarrow> system" where
  "goto_task i w s = s\<lparr>tm_tasks := (tm_tasks s)[i := w]\<rparr>"

definition connect_failed :: "system \<Rightarrow> ConnectionData \<Rightarrow> string" where
  "connect_failed s cd =
     ''session '' @ Id_session s @ '' connection '' @ Id_conn cd @ '' failed to connect''"

text \<open>
  A goroutine of the routing layer inside \<^verbatim>\<open>Connect\<close> (lines 150-169, with
  \<^verbatim>\<open>addConnection\<close>, lines 171-203, inlined from \<open>C_Start\<close> to \<open>C_Created\<close>) or
  inside \<^verbatim>\<open>Cancel\<close> (lines 142-148). Each equation is one step: \<open>C_Enter\<close> takes
  the lock of line 153 and reads the flag, \<open>C_Get\<close> is line 155, \<open>C_Start\<close> lines
  176-177, \<open>C_Spawn\<close> line 182, \<open>C_Set\<close> line 197, \<open>C_Send\<close> line 198,
  \<open>C_Created\<close> line 200, \<open>C_Attach\<close> line 164, \<open>C_Return\<close> leaves the closure and
  gives the lock back. The results of \<^verbatim>\<open>connection.Start\<close> and
  \<^verbatim>\<open>connection.Connect\<close>, which belong to the connection transport, are inputs.
  A started connection has its work running under the session's task manager: the entry
  \<open>Started\<close> that \<open>C_Start\<close> appends; line 182 turns it into the waiting watcher.
\<close>

fun caller_step :: "nat \<Rightarrow> caller_pc \<Rightarrow> input \<Rightarrow> system \<Rightarrow> system option" where
  "caller_step t C_Idle (ConnectIn cd) s = Some (goto_caller t (C_Enter cd) s)"
| "caller_step t C_Idle CancelIn s = Some (goto_caller t K_Enter s)"
| "caller_step t (C_Enter cd) inp s =
     (if lock_free s
      then Some (goto_caller t (if closed s then C_Return (Some ErrClosed) else C_Get cd)
                   (lock (Caller t) s))
      else None)"
| "caller_step t (C_Get cd) inp s =
     Some (goto_caller t
             (case conn_Get (Id_conn cd) s of Some c \<Rightarrow> C_Attach c | None \<Rightarrow> C_Start cd) s)"
| "caller_step t (C_Start cd) (ErrIn None) s =
     Some (goto_caller t (C_Spawn cd (length (tm_tasks s)))
             (s\<lparr>tm_tasks := tm_tasks s @ [Started cd]\<rparr>))"
| "caller_step t (C_Start cd) (ErrIn (Some e)) s =
     Some (goto_caller t (C_Return (Some (Wrapped (connect_failed s cd) e))) s)"
| "caller_step t (C_Spawn cd i) inp s =
     Some (goto_caller t (C_Set cd) (goto_task i (W_Recv cd) s))"
| "caller_step t (C_Set cd) inp s =
     Some (goto_caller t (C_Send cd) (conn_Set (Id_conn cd) cd s))"
| "caller_step t (C_Send cd) inp s =
     send_changed (Caller t) (goto_caller t (C_Created cd)) s"
| "caller_step t (C_Created cd) inp s =
     Some (goto_caller t (C_Attach cd)
             (record_obs (Emit (ConnectionCreated (Id_session s) cd)) s))"
| "caller_step t (C_Attach c) (ErrIn r) s = Some (goto_caller t (C_Return r) s)"
| "caller_step t (C_Return r) inp s = Some (goto_caller t (C_Done r) (unlock s))"
| "caller_step t K_Enter inp s =
     (if lock_free s then Some (goto_caller t (K_Body (closed s)) (lock (Caller t) s))
      else None)"
| "caller_step t (K_Body v) inp s = Some (goto_caller t K_Done (unlock (Cancel_body v s)))"
| "caller_step t _ _ s = None"

text \<open>
  The watcher spawned by \<^verbatim>\<open>addConnection\<close> (lines 182-195): \<open>W_Recv\<close> is the
  receive of line 183 (the exit code is an input; \<open>ExitClosedIn\<close> is the closed channel
  of lines 184-186), \<open>W_Delete\<close> lines 187-189, \<open>W_Send\<close> line 190, \<open>W_Emit\<close> line 192.
\<close>

fun watcher_step :: "nat \<Rightarrow> conn_task \<Rightarrow> input \<Rightarrow> system \<Rightarrow> system option" where
  "watcher_step i (W_Recv cd) (ExitIn code) s = Some (goto_task i (W_Delete cd code) s)"
| "watcher_step i (W_Recv cd) ExitClosedIn s = Some (s\<lparr>panicked := True\<rparr>)"
| "watcher_step i (W_Delete cd code) inp s =
     Some (goto_task i (W_Send cd code) (conn_Delete (Id_conn cd) s))"
| "watcher_step i (W_Send cd code) inp s =
     send_changed (Watcher i) (goto_task i (W_Emit cd code)) s"
| "watcher_step i (W_Emit cd code) inp s =
     Some (goto_task i W_Done
             (record_obs (Emit (ConnectionClosed (Id_session s) cd code)) s))"
| "watcher_step i _ _ s = None"

text \<open>
  The closing watcher spawned by \<^verbatim>\<open>Run\<close> (lines 88-110): \<open>CL_Select\<close> is the
  \<^verbatim>\<open>select\<close> of lines 89-96, \<open>CL_Cancel_Enter\<close> and \<open>CL_Cancel_Body\<close> the call of
  line 91, \<open>CL_SetClosed\<close> line 98, \<open>CL_Wait\<close> line 100 (the aggregated error is an
  input), then lines 102, 103, 105 and 107. Closing a closed channel panics.
\<close>

fun closer_step :: "closer_pc \<Rightarrow> input \<Rightarrow> system \<Rightarrow> system option" where
  "closer_step CL_Select SelParent s =
     (if group_cancelled s then Some (s\<lparr>closer := CL_Cancel_Enter\<rparr>) else None)"
| "closer_step CL_Select SelOwn s =
     (if tm_cancelled s then Some (s\<lparr>closer := CL_SetClosed\<rparr>) else None)"
| "closer_step CL_Cancel_Enter inp s =
     (if lock_free s then Some ((lock Closer s)\<lparr>closer := CL_Cancel_Body (closed s)\<rparr>)
      else None)"
| "closer_step (CL_Cancel_Body v) inp s =
     Some ((unlock (Cancel_body v s))\<lparr>closer := CL_SetClosed\<rparr>)"
| "closer_step CL_SetClosed inp s =
     (if lock_free s
      then Some ((record_obs SetClosed (s\<lparr>closed := True\<rparr>))\<lparr>closer := CL_Wait\<rparr>)
      else None)"
| "closer_step CL_Wait (ErrIn r) s =
     (if tm_Wait_ready s
      then Some ((record_obs WaitReturned s)\<lparr>closer := CL_CloseChanged r\<rparr>)
      else None)"
| "closer_step (CL_CloseChanged r) inp s =
     Some (if connectionsChanged_closed s then s\<lparr>panicked := True\<rparr>
           else s\<lparr>connectionsChanged_closed := True, closer := CL_CloseClosing r\<rparr>)"
| "closer_step (CL_CloseClosing r) inp s =
     Some (if sessionClosing_closed s then s\<lparr>panicked := True\<rparr>
           else s\<lparr>sessionClosing_closed := True, closer := CL_Release r\<rparr>)"
| "closer_step (CL_Release r) inp s = Some ((record_obs GpuRelease s)\<lparr>closer := CL_Emit r\<rparr>)"
| "closer_step (CL_Emit r) inp s =
     Some ((record_obs (Emit (SessionClosed (Id_session s))) s)\<lparr>closer := CL_Done r\<rparr>)"
| "closer_step _ _ s = None"

text \<open>
  The ticker spawned by \<^verbatim>\<open>Run\<close> for a session that is not persistent (lines
  113-136): \<open>T_Start\<close> is line 114, \<open>T_Select\<close> the \<^verbatim>\<open>select\<close> of line 119 with
  its three cases, \<open>T_Cancel_Enter\<close> and \<open>T_Cancel_Body\<close> the call of line 124,
  \<open>T_Eval\<close> lines 127-131. Time is abstracted: an armed ticker may deliver its tick at
  any step. A receive on the closed \<^verbatim>\<open>connectionsChanged\<close> succeeds at once. The
  deferred \<^verbatim>\<open>ticker.Stop()\<close> runs when the loop is left.
\<close>

fun ticker_step :: "ticker_pc \<Rightarrow> input \<Rightarrow> system \<Rightarrow> system option" where
  "ticker_step T_Start inp s = Some (s\<lparr>timer := Armed 30, ticker := T_Select\<rparr>)"
| "ticker_step T_Select SelClosing s =
     (if sessionClosing_closed s then Some (s\<lparr>timer := Stopped, ticker := T_Done\<rparr>)
      else None)"
| "ticker_step T_Select SelTick s =
     (case timer s of Armed p \<Rightarrow> Some (s\<lparr>ticker := T_Cancel_Enter\<rparr>) | _ \<Rightarrow> None)"
| "ticker_step T_Select SelChanged s =
     (if connectionsChanged_closed s then Some (s\<lparr>ticker := T_Eval\<rparr>) else None)"
| "ticker_step T_Cancel_Enter inp s =
     (if lock_free s then Some ((lock Ticker s)\<lparr>ticker := T_Cancel_Body (closed s)\<rparr>)
      else None)"
| "ticker_step (T_Cancel_Body v) inp s =
     Some ((unlock (Cancel_body v s))\<lparr>ticker := T_Select\<rparr>)"
| "ticker_step T_Eval inp s =
     Some (s\<lparr>timer := (if conn_Empty s then Armed 30 else Stopped), ticker := T_Select\<rparr>)"
| "ticker_step _ _ s = None"

text \<open>
  One step of the system: the scheduler picks a goroutine, the environment supplies the
  input that step reads. \<open>None\<close> means that the goroutine cannot move in this state (it
  is blocked or finished, or the process has panicked). \<open>ParentGroup\<close> cancels the group
  given to \<^verbatim>\<open>Run\<close>; \<open>ParentCtx\<close> cancels the context given to
  \<^verbatim>\<open>newSession\<close>, from which the session's task manager is derived.
\<close>

fun dispatch :: "task \<Rightarrow> input \<Rightarrow> system \<Rightarrow> system option" where
  "dispatch ParentGroup inp s = Some (s\<lparr>group_cancelled := True\<rparr>)"
| "dispatch ParentCtx inp s = Some (tm_Cancel s)"
| "dispatch Closer inp s = closer_step (closer s) inp s"
| "dispatch Ticker inp s = ticker_step (ticker s) inp s"
| "dispatch (Caller t) inp s = caller_step t (callers s t) inp s"
| "dispatch (Watcher i) inp s =
     (if i < length (tm_tasks s) then watcher_step i (tm_tasks s ! i) inp s else None)"

definition exec :: "task \<times> input \<Rightarrow> system \<Rightarrow> system option" where
  "exec a s = (if panicked s then None else dispatch (fst a) (snd a) s)"

fun run :: "(task \<times> input) list \<Rightarrow> system \<Rightarrow> system option" where
  "run [] s = Some s"
| "run (a # as) s = (case exec a s of None \<Rightarrow> None | Some s' \<Rightarrow> run as s')"

inductive reachable :: "system \<Rightarrow> system \<Rightarrow> bool" for s0 :: system where
  reachable_init: "reachable s0 s0"
| reachable_step: "reachable s0 s \<Longrightarrow> exec a s = Some s' \<Longrightarrow> reachable s0 s'"

section \<open>Invariants of the reachable states\<close>

text \<open>
  \<open>in_crit\<close>: the caller is inside the closure of \<^verbatim>\<open>WithReturn\<close> or
  \<^verbatim>\<open>With\<close>, so it holds the lock. \<open>in_connect\<close>: the caller is inside the
  branch of \<^verbatim>\<open>Connect\<close> that is taken when the flag was false (lines 155-164).
\<close>

fun in_crit :: "caller_pc \<Rightarrow> bool" where
  "in_crit C_Idle = False"
| "in_crit (C_Enter cd) = False"
| "in_crit (C_Done r) = False"
| "in_crit K_Enter = False"
| "in_crit K_Done = False"
| "in_crit _ = True"

fun in_connect :: "caller_pc \<Rightarrow> bool" where
  "in_connect (C_Get cd) = True"
| "in_connect (C_Start cd) = True"
| "in_connect (C_Spawn cd i) = True"
| "in_connect (C_Set cd) = True"
| "in_connect (C_Send cd) = True"
| "in_connect (C_Created cd) = True"
| "in_connect (C_Attach cd) = True"
| "in_connect _ = False"

text \<open>
  The closing watcher is a straight line after its \<^verbatim>\<open>select\<close>: \<open>closer_rank\<close>
  numbers its program counters in the order of the source, \<open>closer_obs\<close> picks its four
  observations from the trace, \<open>teardown\<close> lists them in the order of the source, and
  \<open>closer_events\<close> says how many of them a watcher at a given program counter has made.
\<close>

fun closer_rank :: "closer_pc \<Rightarrow> nat" where
  "closer_rank CL_None = 0"
| "closer_rank CL_Select = 1"
| "closer_rank CL_Cancel_Enter = 2"
| "closer_rank (CL_Cancel_Body v) = 3"
| "closer_rank CL_SetClosed = 4"
| "closer_rank CL_Wait = 5"
| "closer_rank (CL_CloseChanged r) = 6"
| "closer_rank (CL_CloseClosing r) = 7"
| "closer_rank (CL_Release r) = 8"
| "closer_rank (CL_Emit r) = 9"
| "closer_rank (CL_Done r) = 10"

fun closer_obs :: "obs \<Rightarrow> bool" where
  "closer_obs SetClosed = True"
| "closer_obs WaitReturned = True"
| "closer_obs GpuRelease = True"
| "closer_obs (Emit (SessionClosed i)) = True"
| "closer_obs _ = False"

definition teardown :: "system \<Rightarrow> obs list" where
  "teardown s = [SetClosed, WaitReturned, GpuRelease, Emit (SessionClosed (Id_session s))]"

fun closer_events :: "closer_pc \<Rightarrow> nat" where
  "closer_events CL_Wait = 1"
| "closer_events (CL_CloseChanged r) = 2"
| "closer_events (CL_CloseClosing r) = 2"
| "closer_events (CL_Release r) = 2"
| "closer_events (CL_Emit r) = 3"
| "closer_events (CL_Done r) = 4"
| "closer_events _ = 0"

text \<open>
  \<open>lock_inv\<close>: whoever is inside a closure holds the lock; \<open>owner_inv\<close>: whoever holds
  the lock is inside a closure. \<open>closer_inv\<close>: the flag and
  the two channels are written by the closing watcher only, at lines 98, 102 and 103, and
  its observations are the initial part of \<open>teardown\<close> that fits its program counter.
  \<open>closed_inv\<close>: while the flag is true no call is inside the open branch of
  \<^verbatim>\<open>Connect\<close>. \<open>spawn_inv\<close>: a call at line 182 refers to the unit of its own
  connection. \<open>wait_inv\<close>: once \<^verbatim>\<open>Wait\<close> has returned, every unit under the
  task manager has finished.
\<close>

definition lock_inv :: "system \<Rightarrow> bool" where
  "lock_inv s \<longleftrightarrow>
     (\<forall>t. in_crit (callers s t) \<longrightarrow> closed_lock s = Some (Caller t)) \<and>
     (closer_rank (closer s) = 3 \<longrightarrow> closed_lock s = Some Closer) \<and>
     ((\<exists>v. ticker s = T_Cancel_Body v) \<longrightarrow> closed_lock s = Some Ticker)"

definition closer_inv :: "system \<Rightarrow> bool" where
  "closer_inv s \<longleftrightarrow>
     (closed s \<longleftrightarrow> 5 \<le> closer_rank (closer s)) \<and>
     (connectionsChanged_closed s \<longleftrightarrow> 7 \<le> closer_rank (closer s)) \<and>
     (sessionClosing_closed s \<longleftrightarrow> 8 \<le> closer_rank (closer s)) \<and>
     filter closer_obs (trace s) = take (closer_events (closer s)) (teardown s)"

definition closed_inv :: "system \<Rightarrow> bool" where
  "closed_inv s \<longleftrightarrow> (closed s \<longrightarrow> (\<forall>t. \<not> in_connect (callers s t)))"

definition spawn_inv :: "system \<Rightarrow> bool" where
  "spawn_inv s \<longleftrightarrow>
     (\<forall>t cd i. callers s t = C_Spawn cd i \<longrightarrow> i < length (tm_tasks s) \<and> tm_tasks s ! i = Started cd)"

definition wait_inv :: "system \<Rightarrow> bool" where
  "wait_inv s \<longleftrightarrow> (6 \<le> closer_rank (closer s) \<longrightarrow> tm_Wait_ready s)"

fun holds :: "task \<Rightarrow> system \<Rightarrow> bool" where
  "holds (Caller t) s = in_crit (callers s t)"
| "holds Closer s = (closer_rank (closer s) = 3)"
| "holds Ticker s = (\<exists>v. ticker s = T_Cancel_Body v)"
| "holds _ s = False"

definition owner_inv :: "system \<Rightarrow> bool" where
  "owner_inv s \<longleftrightarrow> (\<forall>w. closed_lock s = Some w \<longrightarrow> holds w s)"

definition session_inv :: "system \<Rightarrow> bool" where
  "session_inv s \<longleftrightarrow>
     lock_inv s \<and> owner_inv s \<and> closer_inv s \<and> closed_inv s \<and> spawn_inv s \<and> wait_inv s"

text \<open>\<open>only_after x y xs\<close>: in \<open>xs\<close> no \<open>y\<close> occurs before the first \<open>x\<close>.\<close>

fun only_after :: "obs \<Rightarrow> obs \<Rightarrow> obs list \<Rightarrow> bool" where
  "only_after x y [] = True"
| "only_after x y (z # zs) = (if z = y then False else if z = x then True else only_after x y zs)"

text \<open>
  \<open>conn_obs\<close>: the observations that need a completed send on
  \<^verbatim>\<open>connectionsChanged\<close>. \<open>mode_inv\<close>: a session has a ticker exactly when it is
  not persistent. \<open>persistent_inv\<close>: without a ticker there is no timer, nobody is past
  a send, and none of these observations has been made.
\<close>

fun conn_obs :: "obs \<Rightarrow> bool" where
  "conn_obs (Signal w) = True"
| "conn_obs (Emit (ConnectionCreated i c)) = True"
| "conn_obs (Emit (ConnectionClosed i c n)) = True"
| "conn_obs _ = False"

definition mode_inv :: "system \<Rightarrow> bool" where
  "mode_inv s \<longleftrightarrow> (ticker s = T_None \<longleftrightarrow> Persistent s)"

definition persistent_inv :: "system \<Rightarrow> bool" where
  "persistent_inv s \<longleftrightarrow>
     (ticker s = T_None \<longrightarrow>
        timer s = NoTimer \<and>
        (\<forall>t cd. callers s t \<noteq> C_Created cd) \<and>
        (\<forall>k cd c. k < length (tm_tasks s) \<longrightarrow> tm_tasks s ! k \<noteq> W_Emit cd c) \<and>
        filter conn_obs (trace s) = [])"

text \<open>
  \<open>pending\<close>: some call waits at the send of line 198 or some watcher at the send of
  line 190. \<open>counting\<close>: the timer is armed. \<open>ticker_idle\<close>: the ticker waits in its
  \<^verbatim>\<open>select\<close> or is inside \<^verbatim>\<open>Cancel\<close>. \<open>idle_inv\<close>: when the ticker is
  idle and nothing is pending, the timer is armed exactly when the map is empty.
\<close>

fun is_send :: "caller_pc \<Rightarrow> bool" where
  "is_send (C_Send cd) = True"
| "is_send _ = False"

fun is_wsend :: "conn_task \<Rightarrow> bool" where
  "is_wsend (W_Send cd c) = True"
| "is_wsend _ = False"

definition any_send :: "(nat \<Rightarrow> caller_pc) \<Rightarrow> bool" where
  "any_send f \<longleftrightarrow> (\<exists>t. is_send (f t))"

definition pending :: "system \<Rightarrow> bool" where
  "pending s \<longleftrightarrow> any_send (callers s) \<or> list_ex is_wsend (tm_tasks s)"

fun counting :: "timer \<Rightarrow> bool" where
  "counting (Armed n) = True"
| "counting _ = False"

fun ticker_idle :: "ticker_pc \<Rightarrow> bool" where
  "ticker_idle T_Select = True"
| "ticker_idle T_Cancel_Enter = True"
| "ticker_idle (T_Cancel_Body v) = True"
| "ticker_idle _ = False"

definition idle_inv :: "system \<Rightarrow> bool" where
  "idle_inv s \<longleftrightarrow>
     (ticker s = T_None \<longrightarrow> timer s = NoTimer) \<and>
     (ticker s = T_Start \<longrightarrow> (\<not> pending s \<longrightarrow> conn_Empty s)) \<and>
     (ticker_idle (ticker s) \<and> \<not> pending s \<longrightarrow> (counting (timer s) \<longleftrightarrow> conn_Empty s))"

text \<open>
  A connection \<open>k\<close> that is in the map while nothing is left that would delete it: no
  call is creating \<open>k\<close>, and no unit under the task manager belongs to \<open>k\<close> and has its
  delete still ahead.
\<close>

fun creating :: "string \<Rightarrow> caller_pc \<Rightarrow> bool" where
  "creating k (C_Start cd) = (Id_conn cd = k)"
| "creating k (C_Spawn cd i) = (Id_conn cd = k)"
| "creating k _ = False"

fun deleting :: "string \<Rightarrow> conn_task \<Rightarrow> bool" where
  "deleting k (Started cd) = (Id_conn cd = k)"
| "deleting k (W_Recv cd) = (Id_conn cd = k)"
| "deleting k (W_Delete cd c) = (Id_conn cd = k)"
| "deleting k _ = False"

definition stale_inv :: "string \<Rightarrow> system \<Rightarrow> bool" where
  "stale_inv k s \<longleftrightarrow>
     conn_Get k s \<noteq> None \<and>
     (\<forall>t. \<not> creating k (callers s t)) \<and>
     (\<forall>m<length (tm_tasks s). \<not> deleting k (tm_tasks s ! m))"

section \<open>The endpoints of the agent\<close>

text \<open>
  The handlers of \<^verbatim>\<open>cmd/agent/app/endpoints.go\<close> as functions from what the
  handler reads (the request, the agent's counters, the results of the calls it makes)
  to the list of what it does, in order. \<^verbatim>\<open>errors.Join\<close> drops its nil arguments;
  in the handlers its first argument is never nil.
\<close>

datatype body = Body_empty | Body_string string | Body_error error

datatype effect =
    Respond nat body
  | LogError error
  | ReleaseSelected
  | StartSession
  | SignalSession string
  | CastHijacker
  | Hijack
  | ConnectSession "string option"
  | CloseConn

datatype outcome = Returned | Panic_nil_dereference

fun Join :: "error \<Rightarrow> error option \<Rightarrow> error" where
  "Join e None = Joined [e]"
| "Join e (Some e') = Joined [e, e']"

record Agent =
  sessions_Len :: int
  maxSessions :: int

record request_env =
  ReadRequestBody :: "error + string"
  startSession :: "error + string"
  rs_Respond :: "nat \<Rightarrow> body \<Rightarrow> error option"
  Signal_result :: "error option"

text \<open>
  \<^verbatim>\<open>requestSessionEp\<close> (lines 57-94). \<^verbatim>\<open>agent.sessions.Len()\<close> is the
  length of a map and \<^verbatim>\<open>maxSessions\<close> a Go \<^verbatim>\<open>int\<close>; the sum of line 66
  cannot overflow, so both are integers here. \<^verbatim>\<open>agent.startSession\<close> is not
  among the sources: its result is an input, and \<open>StartSession\<close> marks its call.
\<close>

definition requestSessionEp :: "Agent \<Rightarrow> request_env \<Rightarrow> effect list" where
  "requestSessionEp agent env =
     (case ReadRequestBody env of
        Inl e \<Rightarrow>
          [Respond 500 (Body_error e),
           LogError (Join e (rs_Respond env 500 (Body_error e))), ReleaseSelected]
      | Inr requestSession \<Rightarrow>
          if sessions_Len agent + 1 \<ge> maxSessions agent
          then [LogError (New ''unable to add another session''), ReleaseSelected]
          else StartSession #
            (case startSession env of
               Inl e \<Rightarrow>
                 [Respond 500 (Body_error e),
                  LogError (Join e (rs_Respond env 500 (Body_error e)))]
             | Inr createdId \<Rightarrow>
                 Respond 200 (Body_string createdId) #
                 (case rs_Respond env 200 (Body_string createdId) of
                    None \<Rightarrow> []
                  | Some e \<Rightarrow> [SignalSession createdId, LogError (Join e (Signal_result env))])))"

record connect_env =
  getSession :: "string option \<times> error option"
  Cast_result :: "error option"
  Hijack_result :: "error option"
  cs_Respond :: "nat \<Rightarrow> body \<Rightarrow> error option"
  Connect_result :: "error option"
  Close_result :: "error option"

text \<open>
  \<^verbatim>\<open>connectSessionEp\<close> (lines 151-195). The session returned by
  \<^verbatim>\<open>agent.getSession\<close> is a pointer: \<open>None\<close> is nil. \<^verbatim>\<open>Connect\<close>
  reads the fields of its receiver (\<^verbatim>\<open>session.closed\<close>, session.go line 153), so
  calling it on nil panics with a nil dereference; on a session its result is an input.
\<close>

definition connectSessionEp :: "connect_env \<Rightarrow> effect list \<times> outcome" where
  "connectSessionEp env =
     (case getSession env of
        (session, Some e) \<Rightarrow>
          ([Respond 500 (Body_error e), LogError (Join e (cs_Respond env 500 (Body_error e)))],
           Returned)
      | (session, None) \<Rightarrow>
          (let found = (if session = None then [Respond 400 Body_empty] else []) in
           case Cast_result env of
             Some e \<Rightarrow>
               (found @ [CastHijacker, Respond 500 (Body_error e),
                         LogError (Join e (cs_Respond env 500 (Body_error e)))],
                Returned)
           | None \<Rightarrow>
               (case Hijack_result env of
                  Some e \<Rightarrow>
                    (found @ [CastHijacker, Hijack, Respond 500 (Body_error e),
                              LogError (Join e (cs_Respond env 500 (Body_error e)))],
                     Returned)
                | None \<Rightarrow>
                    (case session of
                       None \<Rightarrow>
                         (found @ [CastHijacker, Hijack, ConnectSession None],
                          Panic_nil_dereference)
                     | Some sid \<Rightarrow>
                         (case Connect_result env of
                            None \<Rightarrow> (found @ [CastHijacker, Hijack, ConnectSession (Some sid)], Returned)
                          | Some e \<Rightarrow>
                              (found @ [CastHijacker, Hijack, ConnectSession (Some sid), CloseConn,
                                        LogError (Join e (Close_result env))],
                               Returned))))))"

definition full_agent :: Agent where
  "full_agent = \<lparr>sessions_Len = 3, maxSessions = 4\<rparr>"

definition free_agent :: Agent where
  "free_agent = \<lparr>sessions_Len = 2, maxSessions = 4\<rparr>"

definition example_request :: request_env where
  "example_request =
     \<lparr>ReadRequestBody = Inr ''{}'', startSession = Inr ''s4'',
      rs_Respond = (\<lambda>_ _. None), Signal_result = None\<rparr>"

definition missing_session_request :: connect_env where
  "missing_session_request =
     \<lparr>getSession = (None, None), Cast_result = None, Hijack_result = None,
      cs_Respond = (\<lambda>_ _. None), Connect_result = None, Close_result = None\<rparr>"

section \<open>Concrete executions\<close>

definition example_conn :: ConnectionData where
  "example_conn = \<lparr>Id_conn = ''c1'', Pid = ''4242'', ProcessName = ''trainer''\<rparr>"

definition example_session :: "bool \<Rightarrow> system" where
  "example_session p = Run (newSession ''s1'' ''1.0'' p ''/opt/juice'')"

text \<open>Thread 0 connects \<open>c1\<close> for the first time; the ticker takes the signal and stops its timer.\<close>

definition connect_run :: "(task \<times> input) list" where
  "connect_run =
     [(Ticker, NoIn), (Caller 0, ConnectIn example_conn), (Caller 0, NoIn), (Caller 0, NoIn),
      (Caller 0, ErrIn None), (Caller 0, NoIn), (Caller 0, NoIn), (Caller 0, NoIn),
      (Ticker, NoIn), (Caller 0, NoIn), (Caller 0, ErrIn None), (Caller 0, NoIn)]"

text \<open>
  The parent group is cancelled; the closing watcher cancels the session and sets the
  flag, the connection ends with exit code 0, its watcher completes, and the closing
  watcher finishes the teardown.
\<close>

definition teardown_begin_run :: "(task \<times> input) list" where
  "teardown_begin_run =
     [(ParentGroup, NoIn), (Closer, SelParent), (Closer, NoIn), (Closer, NoIn), (Closer, NoIn),
      (Watcher 0, ExitIn 0), (Watcher 0, NoIn), (Watcher 0, NoIn), (Ticker, NoIn),
      (Watcher 0, NoIn), (Closer, ErrIn None)]"

definition teardown_run :: "(task \<times> input) list" where
  "teardown_run =
     teardown_begin_run @
     [(Closer, NoIn), (Closer, NoIn), (Closer, NoIn), (Closer, NoIn), (Ticker, SelClosing)]"

definition connected_state :: system where
  "connected_state = the (run connect_run (example_session False))"

definition cancelled_state :: system where
  "cancelled_state =
     the (run [(ParentGroup, NoIn), (Closer, SelParent), (Closer, NoIn), (Closer, NoIn)]
            connected_state)"

definition waited_state :: system where
  "waited_state = the (run teardown_begin_run connected_state)"

definition torn_down_state :: system where
  "torn_down_state = the (run teardown_run connected_state)"

definition other_conn :: ConnectionData where
  "other_conn = \<lparr>Id_conn = ''c2'', Pid = ''4243'', ProcessName = ''eval''\<rparr>"

text \<open>A second call, for a connection that is not in the map yet, waiting at line 153.\<close>

definition second_call_state :: system where
  "second_call_state = the (run [(Caller 1, ConnectIn other_conn)] connected_state)"

text \<open>
  A persistent session: thread 0 connects \<open>c1\<close> and reaches line 198; the connection
  ends and its watcher reaches line 190. Later the parent group is cancelled, the closing
  watcher wakes up, and a second call arrives.
\<close>

definition persistent_run :: "(task \<times> input) list" where
  "persistent_run =
     [(Caller 0, ConnectIn example_conn), (Caller 0, NoIn), (Caller 0, NoIn),
      (Caller 0, ErrIn None), (Caller 0, NoIn), (Caller 0, NoIn),
      (Watcher 0, ExitIn 0), (Watcher 0, NoIn)]"

definition persistent_later_run :: "(task \<times> input) list" where
  "persistent_later_run =
     [(ParentGroup, NoIn), (Closer, SelParent), (Caller 1, ConnectIn other_conn)]"

definition persistent_blocked_state :: system where
  "persistent_blocked_state = the (run persistent_run (example_session True))"

definition persistent_later_state :: system where
  "persistent_later_state = the (run persistent_later_run persistent_blocked_state)"

text \<open>
  A session that is not persistent: the ticker has started; thread 0 connects \<open>c1\<close> and
  has executed line 197, so the connection is in the map, and waits at line 198.
\<close>

definition racing_run :: "(task \<times> input) list" where
  "racing_run =
     [(Ticker, NoIn), (Caller 0, ConnectIn example_conn), (Caller 0, NoIn), (Caller 0, NoIn),
      (Caller 0, ErrIn None), (Caller 0, NoIn), (Caller 0, NoIn)]"

definition racing_state :: system where
  "racing_state = the (run racing_run (example_session False))"

definition ticking_state :: system where
  "ticking_state = the (run [(Ticker, NoIn)] (example_session False))"

definition signalled_state :: system where
  "signalled_state = the (run [(Caller 0, NoIn)] racing_state)"

text \<open>
  A session that is not persistent: thread 0 connects \<open>c1\<close>; the connection ends with
  exit code 1 as soon as its watcher waits for it, and the watcher runs to its end before
  thread 0 executes line 197. Then the session is torn down.
\<close>

definition stale_run :: "(task \<times> input) list" where
  "stale_run =
     [(Ticker, NoIn), (Caller 0, ConnectIn example_conn), (Caller 0, NoIn), (Caller 0, NoIn),
      (Caller 0, ErrIn None), (Caller 0, NoIn),
      (Watcher 0, ExitIn 1), (Watcher 0, NoIn), (Watcher 0, NoIn), (Ticker, NoIn),
      (Watcher 0, NoIn),
      (Caller 0, NoIn), (Caller 0, NoIn), (Ticker, NoIn), (Caller 0, NoIn),
      (Caller 0, ErrIn None), (Caller 0, NoIn)]"

definition stale_teardown_run :: "(task \<times> input) list" where
  "stale_teardown_run =
     [(ParentGroup, NoIn), (Closer, SelParent), (Closer, NoIn), (Closer, NoIn), (Closer, NoIn),
      (Closer, ErrIn None), (Closer, NoIn), (Closer, NoIn), (Closer, NoIn), (Closer, NoIn),
      (Ticker, SelClosing)]"

definition stale_state :: system where
  "stale_state = the (run stale_run (example_session False))"

definition stale_closed_state :: system where
  "stale_closed_state = the (run stale_teardown_run stale_state)"

text \<open>After that teardown a second thread calls \<^verbatim>\<open>Connect\<close> for \<open>c1\<close>, which is still in the map.\<close>

definition late_call_state :: system where
  "late_call_state = the (run [(Caller 1, ConnectIn example_conn)] stale_closed_state)"

definition late_locked_state :: system where
  "late_locked_state = the (run [(Caller 1, NoIn)] late_call_state)"

text \<open>
  Every cancellation at once: the group given to \<^verbatim>\<open>Run\<close> is cancelled, the
  context given to \<^verbatim>\<open>newSession\<close> is cancelled, thread 1 calls
  \<^verbatim>\<open>Cancel\<close>, and the closing watcher takes the first case of its
  \<^verbatim>\<open>select\<close>. It is applied to the persistent session whose \<^verbatim>\<open>Connect\<close>
  waits at line 198, and to the session that is not persistent after the tick of its
  timer was taken while \<^verbatim>\<open>Connect\<close> waited at line 198.
\<close>

definition trigger_run :: "(task \<times> input) list" where
  "trigger_run =
     [(ParentGroup, NoIn), (ParentCtx, NoIn), (Caller 1, CancelIn), (Closer, SelParent)]"

definition persistent_triggered_state :: system where
  "persistent_triggered_state = the (run trigger_run persistent_blocked_state)"

definition ticked_state :: system where
  "ticked_state = the (run [(Ticker, SelTick)] racing_state)"

definition ticked_triggered_state :: system where
  "ticked_triggered_state = the (run trigger_run ticked_state)"

section \<open>Preservation of the invariants\<close>

lemmas prim_defs = goto_caller_def goto_task_def lock_def unlock_def lock_free_def tm_Cancel_def
  conn_Get_def conn_Set_def conn_Delete_def conn_Empty_def record_obs_def send_changed_def Cancel_body_def

lemma lock_inv_caller:
  assumes "caller_step t (callers s t) inp s = Some s'" and "lock_inv s"
  shows "lock_inv s'"
proof -
  have own: "in_crit (callers s t) \<longrightarrow> closed_lock s = Some (Caller t)"
    using assms(2) by (simp add: lock_inv_def)
  show ?thesis
    using assms(1)
    by (cases rule: caller_step.elims)
       (use own assms(2) in \<open>auto simp: lock_inv_def prim_defs split: if_splits option.splits\<close>)
qed

lemma lock_inv_watcher:
  assumes "watcher_step i w inp s = Some s'" and "lock_inv s"
  shows "lock_inv s'"
  using assms(1)
  by (cases rule: watcher_step.elims)
     (use assms(2) in \<open>auto simp: lock_inv_def prim_defs split: if_splits option.splits\<close>)

lemma lock_inv_closer:
  assumes "closer_step (closer s) inp s = Some s'" and "lock_inv s"
  shows "lock_inv s'"
  using assms(1)
  by (cases rule: closer_step.elims)
     (use assms(2) in \<open>auto simp: lock_inv_def prim_defs split: if_splits option.splits\<close>)

lemma lock_inv_ticker:
  assumes "ticker_step (ticker s) inp s = Some s'" and "lock_inv s"
  shows "lock_inv s'"
  using assms(1)
  by (cases rule: ticker_step.elims)
     (use assms(2) in \<open>auto simp: lock_inv_def prim_defs split: if_splits option.splits timer.splits\<close>)

lemma exec_cases [consumes 1, case_names ParentGroup ParentCtx Closer Ticker Caller Watcher]:
  assumes "exec a s = Some s'"
  obtains inp where "a = (ParentGroup, inp)" and "s' = s\<lparr>group_cancelled := True\<rparr>"
  | inp where "a = (ParentCtx, inp)" and "s' = s\<lparr>tm_cancelled := True\<rparr>"
  | inp where "a = (Closer, inp)" and "closer_step (closer s) inp s = Some s'"
  | inp where "a = (Ticker, inp)" and "ticker_step (ticker s) inp s = Some s'"
  | t inp where "a = (Caller t, inp)" and "caller_step t (callers s t) inp s = Some s'"
  | i inp where "a = (Watcher i, inp)" and "i < length (tm_tasks s)"
      and "watcher_step i (tm_tasks s ! i) inp s = Some s'"
proof (cases a)
  case (Pair w inp)
  with assms that show ?thesis
    by (cases w) (auto simp: exec_def tm_Cancel_def split: if_splits)
qed

lemma lock_inv_step:
  assumes "exec a s = Some s'" and "lock_inv s"
  shows "lock_inv s'"
  using assms(1)
proof (cases rule: exec_cases)
  case ParentGroup
  with assms(2) show ?thesis by (simp add: lock_inv_def)
next
  case ParentCtx
  with assms(2) show ?thesis by (simp add: lock_inv_def)
next
  case Closer
  with assms(2) show ?thesis by (simp add: lock_inv_closer)
next
  case Ticker
  with assms(2) show ?thesis by (simp add: lock_inv_ticker)
next
  case Caller
  with assms(2) show ?thesis by (simp add: lock_inv_caller)
next
  case Watcher
  with assms(2) show ?thesis by (simp add: lock_inv_watcher)
qed

lemma closer_inv_step:
  assumes "exec a s = Some s'" and "closer_inv s"
  shows "closer_inv s'"
  using assms(1)
proof (cases rule: exec_cases)
  case ParentGroup
  with assms(2) show ?thesis by (simp add: closer_inv_def teardown_def)
next
  case ParentCtx
  with assms(2) show ?thesis by (simp add: closer_inv_def teardown_def)
next
  case Closer
  from Closer(2) show ?thesis
    by (cases rule: closer_step.elims)
       (use assms(2) in \<open>auto simp: closer_inv_def teardown_def prim_defs split: if_splits\<close>)
next
  case Ticker
  from Ticker(2) show ?thesis
    by (cases rule: ticker_step.elims)
       (use assms(2) in \<open>auto simp: closer_inv_def teardown_def prim_defs split: if_splits timer.splits\<close>)
next
  case Caller
  from Caller(2) show ?thesis
    by (cases rule: caller_step.elims)
       (use assms(2) in \<open>auto simp: closer_inv_def teardown_def prim_defs split: if_splits option.splits\<close>)
next
  case Watcher
  from Watcher(3) show ?thesis
    by (cases rule: watcher_step.elims)
       (use assms(2) in \<open>auto simp: closer_inv_def teardown_def prim_defs split: if_splits\<close>)
qed

lemma in_connect_crit: "in_connect p \<Longrightarrow> in_crit p"
  by (cases p) simp_all

lemma closed_inv_step:
  assumes "exec a s = Some s'" and "closed_inv s" and "lock_inv s"
  shows "closed_inv s'"
  using assms(1)
proof (cases rule: exec_cases)
  case ParentGroup
  with assms(2) show ?thesis by (simp add: closed_inv_def)
next
  case ParentCtx
  with assms(2) show ?thesis by (simp add: closed_inv_def)
next
  case Closer
  have free: "closed_lock s = None \<Longrightarrow> \<not> in_connect (callers s u)" for u
    using assms(3) in_connect_crit[of "callers s u"] by (auto simp: lock_inv_def)
  from Closer(2) show ?thesis
    by (cases rule: closer_step.elims)
       (use assms(2) free in \<open>auto simp: closed_inv_def prim_defs split: if_splits\<close>)
next
  case Ticker
  from Ticker(2) show ?thesis
    by (cases rule: ticker_step.elims)
       (use assms(2) in \<open>auto simp: closed_inv_def prim_defs split: if_splits timer.splits\<close>)
next
  case (Caller t inp)
  have own: "closed s \<longrightarrow> \<not> in_connect (callers s t)"
    using assms(2) by (simp add: closed_inv_def)
  from Caller(2) show ?thesis
    by (cases rule: caller_step.elims)
       (use assms(2) own in \<open>auto simp: closed_inv_def prim_defs split: if_splits option.splits\<close>)
next
  case Watcher
  from Watcher(3) show ?thesis
    by (cases rule: watcher_step.elims)
       (use assms(2) in \<open>auto simp: closed_inv_def prim_defs split: if_splits\<close>)
qed

lemma spawn_inv_step:
  assumes "exec a s = Some s'" and "spawn_inv s" and "lock_inv s"
  shows "spawn_inv s'"
  using assms(1)
proof (cases rule: exec_cases)
  case ParentGroup
  with assms(2) show ?thesis by (simp add: spawn_inv_def)
next
  case ParentCtx
  with assms(2) show ?thesis by (simp add: spawn_inv_def)
next
  case Closer
  from Closer(2) show ?thesis
    by (cases rule: closer_step.elims)
       (use assms(2) in \<open>auto simp: spawn_inv_def prim_defs split: if_splits\<close>)
next
  case Ticker
  from Ticker(2) show ?thesis
    by (cases rule: ticker_step.elims)
       (use assms(2) in \<open>auto simp: spawn_inv_def prim_defs split: if_splits timer.splits\<close>)
next
  case (Caller t inp)
  have only: "callers s u \<noteq> C_Spawn cd' k" if "in_crit (callers s t)" and "u \<noteq> t" for u cd' k
  proof
    assume "callers s u = C_Spawn cd' k"
    with assms(3) have "closed_lock s = Some (Caller u)" by (simp add: lock_inv_def)
    moreover from assms(3) that(1) have "closed_lock s = Some (Caller t)" by (simp add: lock_inv_def)
    ultimately show False using that(2) by simp
  qed
  from Caller(2) show ?thesis
    by (cases rule: caller_step.elims)
       (use assms(2) only in \<open>auto simp: spawn_inv_def prim_defs nth_append split: if_splits option.splits\<close>)
next
  case (Watcher i inp)
  from Watcher(3) show ?thesis
    by (cases rule: watcher_step.elims)
       (use assms(2) Watcher(2) in \<open>auto simp: spawn_inv_def prim_defs nth_list_update split: if_splits\<close>)
qed

lemma wait_inv_step:
  assumes "exec a s = Some s'" and "wait_inv s" and "closer_inv s" and "closed_inv s"
  shows "wait_inv s'"
  using assms(1)
proof (cases rule: exec_cases)
  case ParentGroup
  with assms(2) show ?thesis by (simp add: wait_inv_def tm_Wait_ready_def)
next
  case ParentCtx
  with assms(2) show ?thesis by (simp add: wait_inv_def tm_Wait_ready_def)
next
  case Closer
  from Closer(2) show ?thesis
    by (cases rule: closer_step.elims)
       (use assms(2) in \<open>auto simp: wait_inv_def tm_Wait_ready_def prim_defs split: if_splits\<close>)
next
  case Ticker
  from Ticker(2) show ?thesis
    by (cases rule: ticker_step.elims)
       (use assms(2) in \<open>auto simp: wait_inv_def tm_Wait_ready_def prim_defs split: if_splits timer.splits\<close>)
next
  case (Caller t inp)
  have own: "6 \<le> closer_rank (closer s) \<longrightarrow> \<not> in_connect (callers s t)"
    using assms(3,4) by (auto simp: closer_inv_def closed_inv_def)
  from Caller(2) show ?thesis
    by (cases rule: caller_step.elims)
       (use assms(2) own in \<open>auto simp: wait_inv_def tm_Wait_ready_def prim_defs split: if_splits option.splits\<close>)
next
  case (Watcher i inp)
  have own: "6 \<le> closer_rank (closer s) \<longrightarrow> tm_tasks s ! i = W_Done"
    using assms(2) Watcher(2) by (auto simp: wait_inv_def tm_Wait_ready_def list_all_length)
  from Watcher(3) show ?thesis
    by (cases rule: watcher_step.elims)
       (use assms(2) own in \<open>auto simp: wait_inv_def tm_Wait_ready_def prim_defs split: if_splits\<close>)
qed

lemma holds_cases:
  "holds w s \<Longrightarrow>
     (\<exists>t. w = Caller t \<and> in_crit (callers s t)) \<or> (w = Closer \<and> closer_rank (closer s) = 3) \<or>
     (w = Ticker \<and> (\<exists>v. ticker s = T_Cancel_Body v))"
  by (cases w) auto

lemma owner_inv_step:
  assumes "exec a s = Some s'" and "owner_inv s" and "lock_inv s"
  shows "owner_inv s'"
proof -
  have cur: "closed_lock s = Some w \<Longrightarrow>
       (\<exists>t. w = Caller t \<and> in_crit (callers s t)) \<or> (w = Closer \<and> closer_rank (closer s) = 3) \<or>
       (w = Ticker \<and> (\<exists>v. ticker s = T_Cancel_Body v))" for w
    using assms(2) holds_cases by (auto simp: owner_inv_def)
  from assms(1) show ?thesis
  proof (cases rule: exec_cases)
    case Closer
    from Closer(2) show ?thesis
      by (cases rule: closer_step.elims)
         (use cur in \<open>auto simp: owner_inv_def prim_defs split: if_splits\<close>)
  next
    case Ticker
    from Ticker(2) show ?thesis
      by (cases rule: ticker_step.elims)
         (use cur in \<open>auto simp: owner_inv_def prim_defs split: if_splits timer.splits\<close>)
  next
    case (Caller t inp)
    have own: "in_crit (callers s t) \<longrightarrow> closed_lock s = Some (Caller t)"
      using assms(3) by (simp add: lock_inv_def)
    from Caller(2) show ?thesis
      by (cases rule: caller_step.elims)
         (use cur own in \<open>auto simp: owner_inv_def prim_defs split: if_splits option.splits\<close>)
  next
    case Watcher
    from Watcher(3) show ?thesis
      by (cases rule: watcher_step.elims)
         (use cur in \<open>auto simp: owner_inv_def prim_defs split: if_splits\<close>)
  qed (use cur in \<open>auto simp: owner_inv_def\<close>)
qed

lemma session_inv_step: "exec a s = Some s' \<Longrightarrow> session_inv s \<Longrightarrow> session_inv s'"
  unfolding session_inv_def
  using lock_inv_step owner_inv_step closer_inv_step closed_inv_step spawn_inv_step wait_inv_step
  by blast

lemma session_inv_init: "session_inv (Run (newSession i v p j))"
  by (simp add: session_inv_def lock_inv_def owner_inv_def closer_inv_def closed_inv_def
        spawn_inv_def wait_inv_def tm_Wait_ready_def Run_def newSession_def Let_def)

lemma crit_outside_connect:
  "in_crit pc \<Longrightarrow> \<not> in_connect pc \<Longrightarrow> (\<exists>r. pc = C_Return r) \<or> (\<exists>v. pc = K_Body v)"
  by (cases pc) simp_all

lemma reachable_session_inv: "reachable (Run (newSession i v p j)) s \<Longrightarrow> session_inv s"
  by (induction rule: reachable.induct) (auto intro: session_inv_init session_inv_step)

section \<open>Traces and runs\<close>

lemma count_list_filter: "P x \<Longrightarrow> count_list (filter P xs) x = count_list xs x"
  by (induction xs) auto

lemma count_list_snoc: "count_list (xs @ [y]) x = count_list xs x + (if x = y then 1 else 0)"
  by (induction xs) auto

lemma only_after_filter: "P x \<Longrightarrow> P y \<Longrightarrow> only_after x y (filter P xs) = only_after x y xs"
  by (induction xs) auto

lemma run_reachable: "reachable s0 s \<Longrightarrow> run as s = Some s' \<Longrightarrow> reachable s0 s'"
proof (induction as arbitrary: s)
  case Nil
  then show ?case by simp
next
  case (Cons a as)
  then show ?case by (auto split: option.splits intro: reachable_step)
qed

lemma closer_projection:
  assumes "reachable (Run (newSession i v p j)) s"
  shows "filter closer_obs (trace s) = take (closer_events (closer s)) (teardown s)"
  using reachable_session_inv[OF assms] by (simp add: session_inv_def closer_inv_def)

lemma closed_step:
  assumes "exec a s = Some s'"
  shows "(closed s \<longrightarrow> closed s') \<and> (closed s' \<noteq> closed s \<longrightarrow> fst a = Closer \<and> closer s = CL_SetClosed)"
  using assms
proof (cases rule: exec_cases)
  case Closer
  from Closer(2) show ?thesis
    by (cases rule: closer_step.elims) (use Closer(1) in \<open>auto simp: prim_defs split: if_splits\<close>)
next
  case Ticker
  from Ticker(2) show ?thesis
    by (cases rule: ticker_step.elims) (auto simp: prim_defs split: if_splits timer.splits)
next
  case Caller
  from Caller(2) show ?thesis
    by (cases rule: caller_step.elims) (auto simp: prim_defs split: if_splits option.splits)
next
  case Watcher
  from Watcher(3) show ?thesis
    by (cases rule: watcher_step.elims) (auto simp: prim_defs split: if_splits)
qed simp_all

lemma closed_run: "run as s = Some s' \<Longrightarrow> closed s \<Longrightarrow> closed s'"
proof (induction as arbitrary: s)
  case Nil
  then show ?case by simp
next
  case (Cons a as)
  then show ?case using closed_step by (fastforce split: option.splits)
qed

section \<open>Sessions without a ticker\<close>

lemma nth_list_update_any: "xs[i := x] ! j = (if i = j \<and> i < length xs then x else xs ! j)"
  by (cases "i < length xs") (auto simp: nth_list_update list_update_beyond)

lemma mode_inv_step:
  assumes "exec a s = Some s'" and "mode_inv s"
  shows "mode_inv s' \<and> Persistent s' = Persistent s"
  using assms(1)
proof (cases rule: exec_cases)
  case Closer
  from Closer(2) show ?thesis
    by (cases rule: closer_step.elims)
       (use assms(2) in \<open>auto simp: mode_inv_def prim_defs split: if_splits\<close>)
next
  case Ticker
  from Ticker(2) show ?thesis
    by (cases rule: ticker_step.elims)
       (use assms(2) in \<open>auto simp: mode_inv_def prim_defs split: if_splits timer.splits\<close>)
next
  case Caller
  from Caller(2) show ?thesis
    by (cases rule: caller_step.elims)
       (use assms(2) in \<open>auto simp: mode_inv_def prim_defs split: if_splits option.splits\<close>)
next
  case Watcher
  from Watcher(3) show ?thesis
    by (cases rule: watcher_step.elims)
       (use assms(2) in \<open>auto simp: mode_inv_def prim_defs split: if_splits\<close>)
qed (use assms(2) in \<open>simp_all add: mode_inv_def\<close>)

lemma persistent_inv_step:
  assumes "exec a s = Some s'" and "persistent_inv s"
  shows "persistent_inv s'"
  using assms(1)
proof (cases rule: exec_cases)
  case Closer
  from Closer(2) show ?thesis
    by (cases rule: closer_step.elims)
       (use assms(2) in \<open>auto simp: persistent_inv_def prim_defs split: if_splits\<close>)
next
  case Ticker
  from Ticker(2) show ?thesis
    by (cases rule: ticker_step.elims)
       (use assms(2) in \<open>auto simp: persistent_inv_def prim_defs split: if_splits timer.splits\<close>)
next
  case Caller
  from Caller(2) show ?thesis
    by (cases rule: caller_step.elims)
       (use assms(2) in \<open>auto simp: persistent_inv_def prim_defs nth_append nth_list_update_any split: if_splits option.splits\<close>)
next
  case (Watcher k inp)
  from Watcher(3) show ?thesis
    by (cases rule: watcher_step.elims)
       (use assms(2) Watcher(2) in \<open>auto simp: persistent_inv_def prim_defs nth_list_update split: if_splits\<close>)
qed (use assms(2) in \<open>simp_all add: persistent_inv_def\<close>)

lemma reachable_mode:
  "reachable (Run (newSession i v p j)) s \<Longrightarrow> mode_inv s \<and> persistent_inv s \<and> Persistent s = p"
proof (induction rule: reachable.induct)
  case reachable_init
  show ?case by (simp add: mode_inv_def persistent_inv_def Run_def newSession_def Let_def)
next
  case (reachable_step s a s')
  then show ?case using mode_inv_step persistent_inv_step by metis
qed

lemma caller_frame:
  assumes "exec a s = Some s'" and "fst a \<noteq> Caller t"
  shows "callers s' t = callers s t"
  using assms(1)
proof (cases rule: exec_cases)
  case Closer
  from Closer(2) show ?thesis
    by (cases rule: closer_step.elims) (auto simp: prim_defs split: if_splits)
next
  case Ticker
  from Ticker(2) show ?thesis
    by (cases rule: ticker_step.elims) (auto simp: prim_defs split: if_splits timer.splits)
next
  case (Caller u inp)
  with assms(2) have "u \<noteq> t" by simp
  from Caller(2) show ?thesis
    by (cases rule: caller_step.elims)
       (use \<open>u \<noteq> t\<close> in \<open>auto simp: prim_defs split: if_splits option.splits\<close>)
next
  case Watcher
  from Watcher(3) show ?thesis
    by (cases rule: watcher_step.elims) (auto simp: prim_defs split: if_splits)
qed simp_all

lemma send_blocked:
  assumes "session_inv s" and "ticker s \<noteq> T_Select"
  shows "callers s t = C_Send cd \<Longrightarrow> exec (Caller t, inp) s = None"
    and "k < length (tm_tasks s) \<Longrightarrow> tm_tasks s ! k = W_Send cd c \<Longrightarrow> exec (Watcher k, inp) s = None"
proof -
  have cl: "connectionsChanged_closed s \<longrightarrow> 7 \<le> closer_rank (closer s) \<and> closed s"
    using assms(1) by (auto simp: session_inv_def closer_inv_def)
  show "exec (Caller t, inp) s = None" if "callers s t = C_Send cd"
  proof -
    from that have "in_connect (callers s t)" by simp
    with assms(1) have "\<not> closed s" by (auto simp: session_inv_def closed_inv_def)
    with cl have "\<not> connectionsChanged_closed s" by simp
    with that assms(2) show ?thesis by (simp add: exec_def send_changed_def)
  qed
  show "exec (Watcher k, inp) s = None" if "k < length (tm_tasks s)" and "tm_tasks s ! k = W_Send cd c"
  proof -
    from that have "\<not> tm_Wait_ready s" by (auto simp: tm_Wait_ready_def list_all_length)
    with assms(1) have "\<not> 6 \<le> closer_rank (closer s)" by (auto simp: session_inv_def wait_inv_def)
    with cl have "\<not> connectionsChanged_closed s" by auto
    with that assms(2) show ?thesis by (simp add: exec_def send_changed_def)
  qed
qed

lemma task_frame:
  assumes "exec a s = Some s'" and "fst a \<noteq> Watcher k" and "k < length (tm_tasks s)"
    and "tm_tasks s ! k = W_Send cd c" and "spawn_inv s"
  shows "k < length (tm_tasks s') \<and> tm_tasks s' ! k = W_Send cd c"
  using assms(1)
proof (cases rule: exec_cases)
  case Closer
  from Closer(2) show ?thesis
    by (cases rule: closer_step.elims) (use assms(3,4) in \<open>auto simp: prim_defs split: if_splits\<close>)
next
  case Ticker
  from Ticker(2) show ?thesis
    by (cases rule: ticker_step.elims) (use assms(3,4) in \<open>auto simp: prim_defs split: if_splits timer.splits\<close>)
next
  case (Caller u inp)
  have sp: "callers s u = C_Spawn cd' m \<Longrightarrow> m \<noteq> k" for cd' m
    using assms(4,5) by (auto simp: spawn_inv_def)
  from Caller(2) show ?thesis
    by (cases rule: caller_step.elims)
       (use assms(3,4) sp in \<open>auto simp: prim_defs nth_append split: if_splits option.splits\<close>)
next
  case (Watcher m inp)
  with assms(2) have "m \<noteq> k" by simp
  from Watcher(3) show ?thesis
    by (cases rule: watcher_step.elims)
       (use assms(3,4) \<open>m \<noteq> k\<close> in \<open>auto simp: prim_defs split: if_splits\<close>)
qed (use assms(3,4) in simp_all)

lemma stalled_step:
  assumes "exec a s = Some s'" and "session_inv s" and "ticker s = T_None"
  shows "callers s t = C_Send cd \<Longrightarrow> callers s' t = C_Send cd"
    and "k < length (tm_tasks s) \<and> tm_tasks s ! k = W_Send cd c \<Longrightarrow>
           k < length (tm_tasks s') \<and> tm_tasks s' ! k = W_Send cd c"
proof -
  have ns: "ticker s \<noteq> T_Select" using assms(3) by simp
  show "callers s' t = C_Send cd" if "callers s t = C_Send cd"
  proof (cases "fst a = Caller t")
    case True
    then obtain inp where "a = (Caller t, inp)" by (cases a) auto
    with send_blocked(1)[OF assms(2) ns that] assms(1) show ?thesis by simp
  next
    case False
    with caller_frame[OF assms(1)] that show ?thesis by simp
  qed
  show "k < length (tm_tasks s') \<and> tm_tasks s' ! k = W_Send cd c"
    if "k < length (tm_tasks s) \<and> tm_tasks s ! k = W_Send cd c"
  proof (cases "fst a = Watcher k")
    case True
    then obtain inp where "a = (Watcher k, inp)" by (cases a) auto
    with send_blocked(2)[OF assms(2) ns] that assms(1) show ?thesis by simp
  next
    case False
    from assms(2) have "spawn_inv s" by (simp add: session_inv_def)
    with task_frame[OF assms(1) False] that show ?thesis by simp
  qed
qed

lemma stalled_run:
  assumes "reachable (Run (newSession i v True j)) s" and "run as s = Some s'"
  shows "(callers s t = C_Send cd \<longrightarrow> callers s' t = C_Send cd) \<and>
         (k < length (tm_tasks s) \<and> tm_tasks s ! k = W_Send cd c \<longrightarrow>
            k < length (tm_tasks s') \<and> tm_tasks s' ! k = W_Send cd c)"
  using assms
proof (induction as arbitrary: s)
  case Nil
  then show ?case by simp
next
  case (Cons a as)
  from Cons.prems(2) obtain s1 where s1: "exec a s = Some s1" "run as s1 = Some s'"
    by (auto split: option.splits)
  have g: "session_inv s" using reachable_session_inv[OF Cons.prems(1)] .
  have tn: "ticker s = T_None" using reachable_mode[OF Cons.prems(1)] by (simp add: mode_inv_def)
  have r1: "reachable (Run (newSession i v True j)) s1"
    using reachable_step[OF Cons.prems(1) s1(1)] .
  from stalled_step[OF s1(1) g tn] Cons.IH[OF r1 s1(2)] show ?case by blast
qed

section \<open>A send that nobody will receive\<close>

lemma ticker_frame:
  assumes "exec a s = Some s'" and "fst a \<noteq> Ticker" and "ticker s \<noteq> T_Select"
  shows "ticker s' = ticker s"
  using assms(1)
proof (cases rule: exec_cases)
  case Closer
  from Closer(2) show ?thesis
    by (cases rule: closer_step.elims) (auto simp: prim_defs split: if_splits)
next
  case Ticker
  with assms(2) show ?thesis by simp
next
  case Caller
  from Caller(2) show ?thesis
    by (cases rule: caller_step.elims)
       (use assms(3) in \<open>auto simp: prim_defs split: if_splits option.splits\<close>)
next
  case Watcher
  from Watcher(3) show ?thesis
    by (cases rule: watcher_step.elims)
       (use assms(3) in \<open>auto simp: prim_defs split: if_splits\<close>)
qed simp_all

lemma blocked_step:
  assumes "exec a s = Some s'" and "session_inv s" and "callers s t = C_Send cd"
    and "ticker s = T_None \<or> ticker s = T_Cancel_Enter"
  shows "callers s' t = C_Send cd \<and> ticker s' = ticker s"
proof -
  have ns: "ticker s \<noteq> T_Select" using assms(4) by auto
  have held: "closed_lock s = Some (Caller t)"
    using assms(2,3) by (simp add: session_inv_def lock_inv_def)
  have c: "callers s' t = C_Send cd"
  proof (cases "fst a = Caller t")
    case True
    then obtain inp where "a = (Caller t, inp)" by (cases a) auto
    with send_blocked(1)[OF assms(2) ns assms(3)] assms(1) show ?thesis by simp
  next
    case False
    with caller_frame[OF assms(1)] assms(3) show ?thesis by simp
  qed
  have k: "ticker s' = ticker s"
  proof (cases "fst a = Ticker")
    case True
    then obtain inp where a: "a = (Ticker, inp)" by (cases a) auto
    from assms(4) show ?thesis
    proof
      assume "ticker s = T_None"
      with a assms(1) show ?thesis by (simp add: exec_def split: if_splits)
    next
      assume "ticker s = T_Cancel_Enter"
      with a assms(1) held show ?thesis by (simp add: exec_def lock_free_def split: if_splits)
    qed
  next
    case False
    from ticker_frame[OF assms(1) False ns] show ?thesis .
  qed
  from c k show ?thesis by simp
qed

lemma blocked_run:
  assumes "reachable (Run (newSession i v p j)) s" and "callers s t = C_Send cd"
    and "ticker s = T_None \<or> ticker s = T_Cancel_Enter" and "run as s = Some s'"
  shows "callers s' t = C_Send cd \<and> ticker s' = ticker s"
  using assms
proof (induction as arbitrary: s)
  case Nil
  then show ?case by simp
next
  case (Cons a as)
  from Cons.prems(4) obtain s1 where s1: "exec a s = Some s1" "run as s1 = Some s'"
    by (auto split: option.splits)
  have g: "session_inv s" using reachable_session_inv[OF Cons.prems(1)] .
  have b: "callers s1 t = C_Send cd \<and> ticker s1 = ticker s"
    using blocked_step[OF s1(1) g Cons.prems(2,3)] .
  have r1: "reachable (Run (newSession i v p j)) s1"
    using reachable_step[OF Cons.prems(1) s1(1)] .
  from b Cons.prems(3) have t1: "ticker s1 = T_None \<or> ticker s1 = T_Cancel_Enter" by simp
  from Cons.IH[OF r1 _ t1 s1(2)] b show ?case by simp
qed

section \<open>The idle timer between signals\<close>

lemma any_send_upd:
  "\<not> is_send (f t) \<Longrightarrow> any_send (f(t := p)) = (is_send p \<or> any_send f)"
  unfolding any_send_def by (metis fun_upd_apply)

lemma list_ex_upd:
  assumes "k < length xs" and "\<not> P (xs ! k)"
  shows "list_ex P (xs[k := w]) = (P w \<or> list_ex P xs)"
  unfolding list_ex_length using assms
  by (metis length_list_update nth_list_update_eq nth_list_update_neq)

lemma idle_inv_step:
  assumes "exec a s = Some s'" and "idle_inv s" and "spawn_inv s"
  shows "idle_inv s'"
  using assms(1)
proof (cases rule: exec_cases)
  case Closer
  from Closer(2) show ?thesis
    by (cases rule: closer_step.elims)
       (use assms(2) in \<open>auto simp: idle_inv_def pending_def prim_defs split: if_splits\<close>)
next
  case Ticker
  from Ticker(2) show ?thesis
    by (cases rule: ticker_step.elims)
       (use assms(2) in \<open>auto simp: idle_inv_def pending_def prim_defs split: if_splits timer.splits\<close>)
next
  case (Caller t inp)
  have sp: "callers s t = C_Spawn cd m \<Longrightarrow> m < length (tm_tasks s) \<and> \<not> is_wsend (tm_tasks s ! m)" for cd m
    using assms(3) by (auto simp: spawn_inv_def)
  from Caller(2) show ?thesis
    by (cases rule: caller_step.elims)
       (use assms(2) sp in \<open>auto simp: idle_inv_def pending_def prim_defs any_send_upd list_ex_upd
          split: if_splits option.splits\<close>)
next
  case (Watcher k inp)
  from Watcher(3) show ?thesis
    by (cases rule: watcher_step.elims)
       (use assms(2) Watcher(2) in \<open>auto simp: idle_inv_def pending_def prim_defs list_ex_upd split: if_splits\<close>)
qed (use assms(2) in \<open>simp_all add: idle_inv_def pending_def conn_Empty_def\<close>)

lemma reachable_idle:
  "reachable (Run (newSession i v p j)) s \<Longrightarrow> idle_inv s"
proof (induction rule: reachable.induct)
  case reachable_init
  show ?case
    by (simp add: idle_inv_def pending_def any_send_def conn_Empty_def Run_def newSession_def Let_def)
next
  case (reachable_step s a s')
  from reachable_session_inv[OF reachable_step.hyps(1)] have "spawn_inv s" by (simp add: session_inv_def)
  with reachable_step show ?case using idle_inv_step by blast
qed

lemma ticker_idle_cases: "ticker_idle pc \<or> pc = T_None \<or> pc = T_Start \<or> pc = T_Eval \<or> pc = T_Done"
  by (cases pc) simp_all

section \<open>A connection that nothing deletes\<close>

lemma stale_inv_step:
  assumes "exec a s = Some s'" and "stale_inv k s"
  shows "stale_inv k s'"
  using assms(1)
proof (cases rule: exec_cases)
  case Closer
  from Closer(2) show ?thesis
    by (cases rule: closer_step.elims)
       (use assms(2) in \<open>auto simp: stale_inv_def prim_defs split: if_splits\<close>)
next
  case Ticker
  from Ticker(2) show ?thesis
    by (cases rule: ticker_step.elims)
       (use assms(2) in \<open>auto simp: stale_inv_def prim_defs split: if_splits timer.splits\<close>)
next
  case (Caller t inp)
  have own: "\<not> creating k (callers s t)" using assms(2) by (simp add: stale_inv_def)
  from Caller(2) show ?thesis
    by (cases rule: caller_step.elims)
       (use assms(2) own in \<open>auto simp: stale_inv_def prim_defs nth_append nth_list_update_any
          update_conv' split: if_splits option.splits\<close>)
next
  case (Watcher m inp)
  have own: "\<not> deleting k (tm_tasks s ! m)" using assms(2) Watcher(2) by (simp add: stale_inv_def)
  from Watcher(3) show ?thesis
    by (cases rule: watcher_step.elims)
       (use assms(2) own in \<open>auto simp: stale_inv_def prim_defs nth_list_update_any delete_conv'
          split: if_splits\<close>)
qed (use assms(2) in \<open>simp_all add: stale_inv_def conn_Get_def\<close>)

lemma stale_inv_run: "run as s = Some s' \<Longrightarrow> stale_inv k s \<Longrightarrow> stale_inv k s'"
proof (induction as arbitrary: s)
  case Nil
  then show ?case by simp
next
  case (Cons a as)
  then show ?case using stale_inv_step by (fastforce split: option.splits)
qed

section \<open>The concrete executions\<close>

lemma run_append: "run (as @ bs) s = (case run as s of None \<Rightarrow> None | Some s' \<Rightarrow> run bs s')"
  by (induction as arbitrary: s) (auto split: option.splits)

lemmas example_defs = example_conn_def example_session_def connect_run_def teardown_run_def
  teardown_begin_run_def
  Run_def newSession_def exec_def prim_defs tm_Wait_ready_def Let_def

lemma connected_state_run: "run connect_run (example_session False) = Some connected_state"
  by (simp add: connected_state_def example_defs)

lemma torn_down_state_run: "run teardown_run connected_state = Some torn_down_state"
  by (simp add: torn_down_state_def connected_state_def example_defs)

lemma waited_state_run: "run teardown_begin_run connected_state = Some waited_state"
  by (simp add: waited_state_def connected_state_def example_defs)

lemma connected_state_reachable:
  "reachable (Run (newSession ''s1'' ''1.0'' False ''/opt/juice'')) connected_state"
  using run_reachable[OF reachable_init connected_state_run[unfolded example_session_def]] .

lemma torn_down_state_reachable:
  "reachable (Run (newSession ''s1'' ''1.0'' False ''/opt/juice'')) torn_down_state"
  using run_reachable[OF connected_state_reachable torn_down_state_run] .

lemma cancelled_state_fields:
  "closer cancelled_state = CL_SetClosed"
  "\<not> closed cancelled_state"
  "map_option closed (exec (Closer, NoIn) cancelled_state) = Some True"
  by (simp_all add: cancelled_state_def connected_state_def example_defs)

lemma waited_state_reachable:
  "reachable (Run (newSession ''s1'' ''1.0'' False ''/opt/juice'')) waited_state"
  using run_reachable[OF connected_state_reachable waited_state_run] .

lemma waited_state_fields:
  "closer waited_state = CL_CloseChanged None"
  "\<not> panicked waited_state"
  by (simp_all add: waited_state_def connected_state_def example_defs)

lemma torn_down_state_fields:
  "closer torn_down_state = CL_Done None"
  "closed torn_down_state"
  "tm_tasks torn_down_state = [W_Done]"
  "trace torn_down_state =
     [Signal (Caller 0), Emit (ConnectionCreated ''s1'' example_conn), SetClosed,
      Signal (Watcher 0), Emit (ConnectionClosed ''s1'' example_conn 0), WaitReturned,
      GpuRelease, Emit (SessionClosed ''s1'')]"
  "Id_session torn_down_state = ''s1''"
  by (simp_all add: torn_down_state_def connected_state_def example_defs)

lemma stale_state_run: "run stale_run (example_session False) = Some stale_state"
  by (simp add: stale_state_def stale_run_def example_defs)

lemma stale_state_fields:
  "tm_tasks stale_state = [W_Done]"
  "connections stale_state = [(''c1'', example_conn)]"
  "callers stale_state = (\<lambda>_. C_Idle)(0 := C_Done None)"
  "timer stale_state = Stopped"
  "trace stale_state =
     [Signal (Watcher 0), Emit (ConnectionClosed ''s1'' example_conn 1),
      Signal (Caller 0), Emit (ConnectionCreated ''s1'' example_conn)]"
  by (simp_all add: stale_state_def stale_run_def example_defs)

lemma stale_state_inv: "stale_inv ''c1'' stale_state"
  by (simp add: stale_inv_def conn_Get_def stale_state_fields)

lemma stale_connection_stays:
  "run as stale_state = Some s' \<Longrightarrow> conn_Get ''c1'' s' \<noteq> None"
  using stale_inv_run[OF _ stale_state_inv] by (simp add: stale_inv_def)

lemma stale_closed_state_run: "run stale_teardown_run stale_state = Some stale_closed_state"
  by (simp add: stale_closed_state_def stale_state_def stale_run_def stale_teardown_run_def example_defs)

lemma stale_closed_state_reachable:
  "reachable (Run (newSession ''s1'' ''1.0'' False ''/opt/juice'')) stale_closed_state"
  using run_reachable[OF run_reachable[OF reachable_init stale_state_run[unfolded example_session_def]]
      stale_closed_state_run] .

lemma late_call_state_run:
  "run [(Caller 1, ConnectIn example_conn)] stale_closed_state = Some late_call_state"
  by (simp add: late_call_state_def stale_closed_state_def stale_state_def stale_run_def
        stale_teardown_run_def example_defs)

lemma late_call_state_reachable:
  "reachable (Run (newSession ''s1'' ''1.0'' False ''/opt/juice'')) late_call_state"
  using run_reachable[OF stale_closed_state_reachable late_call_state_run] .

lemma late_call_state_fields:
  "closed late_call_state"
  "callers late_call_state 1 = C_Enter example_conn"
  "lock_free late_call_state"
  "\<not> panicked late_call_state"
  "connections late_call_state = [(''c1'', example_conn)]"
  "callers late_call_state 0 = C_Done None"
  by (simp_all add: late_call_state_def stale_closed_state_def stale_state_def stale_run_def
        stale_teardown_run_def example_defs)

lemma late_locked_state_run: "run [(Caller 1, NoIn)] late_call_state = Some late_locked_state"
  by (simp add: late_locked_state_def late_call_state_def stale_closed_state_def stale_state_def
        stale_run_def stale_teardown_run_def example_defs)

lemma late_locked_state_reachable:
  "reachable (Run (newSession ''s1'' ''1.0'' False ''/opt/juice'')) late_locked_state"
  using run_reachable[OF late_call_state_reachable late_locked_state_run] .

lemma late_locked_state_fields:
  "closed late_locked_state"
  "closed_lock late_locked_state = Some (Caller 1)"
  "\<not> panicked late_locked_state"
  by (simp_all add: late_locked_state_def late_call_state_def stale_closed_state_def stale_state_def
        stale_run_def stale_teardown_run_def example_defs)

lemma second_call_state_fields:
  "\<not> closed second_call_state"
  "callers second_call_state 1 = C_Enter other_conn"
  "lock_free second_call_state"
  "\<not> panicked second_call_state"
  "conn_Get (Id_conn other_conn) second_call_state = None"
  "connections second_call_state = [(''c1'', example_conn)]"
  "Id_session second_call_state = ''s1''"
  by (simp_all add: second_call_state_def connected_state_def other_conn_def example_defs)

lemma persistent_blocked_state_run:
  "run persistent_run (example_session True) = Some persistent_blocked_state"
  by (simp add: persistent_blocked_state_def persistent_run_def example_defs)

lemma persistent_later_state_run:
  "run persistent_later_run persistent_blocked_state = Some persistent_later_state"
  by (simp add: persistent_later_state_def persistent_later_run_def persistent_blocked_state_def
        persistent_run_def other_conn_def example_defs)

lemma persistent_blocked_state_reachable:
  "reachable (Run (newSession ''s1'' ''1.0'' True ''/opt/juice'')) persistent_blocked_state"
  using run_reachable[OF reachable_init persistent_blocked_state_run[unfolded example_session_def]] .

lemma persistent_blocked_state_fields:
  "callers persistent_blocked_state 0 = C_Send example_conn"
  "tm_tasks persistent_blocked_state = [W_Send example_conn 0]"
  by (simp_all add: persistent_blocked_state_def persistent_run_def example_defs)

lemma racing_state_run: "run racing_run (example_session False) = Some racing_state"
  by (simp add: racing_state_def racing_run_def example_defs)

lemma racing_state_reachable:
  "reachable (Run (newSession ''s1'' ''1.0'' False ''/opt/juice'')) racing_state"
  using run_reachable[OF reachable_init racing_state_run[unfolded example_session_def]] .

lemma racing_state_fields:
  "\<not> Persistent racing_state"
  "\<not> sessionClosing_closed racing_state"
  "timer racing_state = Armed 30"
  "connections racing_state = [(''c1'', example_conn)]"
  "ticker racing_state = T_Select"
  "callers racing_state 0 = C_Send example_conn"
  by (simp_all add: racing_state_def racing_run_def example_defs)

lemma ticking_state_run: "run [(Ticker, NoIn)] (example_session False) = Some ticking_state"
  by (simp add: ticking_state_def example_defs)

lemma ticking_state_reachable:
  "reachable (Run (newSession ''s1'' ''1.0'' False ''/opt/juice'')) ticking_state"
  using run_reachable[OF reachable_init ticking_state_run[unfolded example_session_def]] .

lemma ticking_state_fields:
  "ticker ticking_state = T_Select"
  "timer ticking_state = Armed 30"
  "lock_free ticking_state"
  "\<not> panicked ticking_state"
  "\<not> closed ticking_state"
  "connections ticking_state = []"
  "callers ticking_state = (\<lambda>_. C_Idle)"
  "tm_tasks ticking_state = []"
  "\<not> tm_cancelled ticking_state"
  by (simp_all add: ticking_state_def example_defs)

lemma signalled_state_run: "run [(Caller 0, NoIn)] racing_state = Some signalled_state"
  by (simp add: signalled_state_def racing_state_def racing_run_def example_defs)

lemma signalled_state_reachable:
  "reachable (Run (newSession ''s1'' ''1.0'' False ''/opt/juice'')) signalled_state"
  using run_reachable[OF racing_state_reachable signalled_state_run] .

lemma signalled_state_fields:
  "ticker signalled_state = T_Eval"
  "\<not> panicked signalled_state"
  "connections signalled_state = [(''c1'', example_conn)]"
  by (simp_all add: signalled_state_def racing_state_def racing_run_def example_defs)

lemma connected_state_fields:
  "ticker connected_state = T_Select"
  "timer connected_state = Stopped"
  "connections connected_state = [(''c1'', example_conn)]"
  "callers connected_state = (\<lambda>_. C_Idle)(0 := C_Done None)"
  "tm_tasks connected_state = [W_Recv example_conn]"
  by (simp_all add: connected_state_def example_defs)

lemma persistent_triggered_state_run:
  "run trigger_run persistent_blocked_state = Some persistent_triggered_state"
  by (simp add: persistent_triggered_state_def trigger_run_def persistent_blocked_state_def
        persistent_run_def example_defs)

lemma persistent_triggered_state_fields:
  "group_cancelled persistent_triggered_state"
  "tm_cancelled persistent_triggered_state"
  "callers persistent_triggered_state 1 = K_Enter"
  "closer persistent_triggered_state = CL_Cancel_Enter"
  "exec (Closer, NoIn) persistent_triggered_state = None"
  "exec (Caller 1, NoIn) persistent_triggered_state = None"
  by (simp_all add: persistent_triggered_state_def trigger_run_def persistent_blocked_state_def
        persistent_run_def example_defs)

lemma persistent_blocked_state_ticker: "ticker persistent_blocked_state = T_None"
  by (simp add: persistent_blocked_state_def persistent_run_def example_defs)

lemma ticked_state_run: "run [(Ticker, SelTick)] racing_state = Some ticked_state"
  by (simp add: ticked_state_def racing_state_def racing_run_def example_defs)

lemma ticked_state_reachable:
  "reachable (Run (newSession ''s1'' ''1.0'' False ''/opt/juice'')) ticked_state"
  using run_reachable[OF racing_state_reachable ticked_state_run] .

lemma ticked_state_fields:
  "callers ticked_state 0 = C_Send example_conn"
  "ticker ticked_state = T_Cancel_Enter"
  by (simp_all add: ticked_state_def racing_state_def racing_run_def example_defs)

lemma ticked_triggered_state_run: "run trigger_run ticked_state = Some ticked_triggered_state"
  by (simp add: ticked_triggered_state_def trigger_run_def ticked_state_def racing_state_def
        racing_run_def example_defs)

lemma ticked_triggered_state_fields:
  "group_cancelled ticked_triggered_state"
  "tm_cancelled ticked_triggered_state"
  "exec (Closer, NoIn) ticked_triggered_state = None"
  "exec (Ticker, NoIn) ticked_triggered_state = None"
  by (simp_all add: ticked_triggered_state_def trigger_run_def ticked_state_def racing_state_def
        racing_run_def example_defs)


section \<open>Connect on a closed session\<close>

text \<open>
  Claim C1. In a reachable state of a started session whose closed flag is true, no call
  is inside the branch of \<^verbatim>\<open>Connect\<close> that looks a connection up or creates
  one; whoever holds the lock gives it back with its next step, which cannot block; and a
  call of \<^verbatim>\<open>Connect\<close> that gets the lock reads the flag and returns
  \<open>ErrClosed\<close>: after the two steps of the call the caller holds that error, and the
  connection map (contents and size), the units under the task manager (no connection
  was started, no watcher spawned) and the trace (no signal, no event) are what they were.
\<close>

theorem Connect_on_closed_session:
  assumes "reachable (Run (newSession i v p j)) s" and "closed s"
  shows "(\<forall>u. \<not> in_connect (callers s u)) \<and>
         (\<forall>w. closed_lock s = Some w \<and> \<not> panicked s \<longrightarrow>
            (\<exists>s'. exec (w, i0) s = Some s' \<and> lock_free s')) \<and>
         (\<forall>t cd. callers s t = C_Enter cd \<and> lock_free s \<and> \<not> panicked s \<longrightarrow>
            (\<exists>s'. run [(Caller t, i1), (Caller t, i2)] s = Some s' \<and>
               callers s' t = C_Done (Some ErrClosed) \<and>
               connections s' = connections s \<and> conn_Len s' = conn_Len s \<and>
               tm_tasks s' = tm_tasks s \<and> trace s' = trace s \<and> closed s'))"
proof -
  have inv: "session_inv s" using reachable_session_inv[OF assms(1)] .
  then have "closed_inv s" by (simp add: session_inv_def)
  with assms(2) have 1: "\<forall>u. \<not> in_connect (callers s u)" by (simp add: closed_inv_def)
  have 2: "\<exists>s'. exec (w, i0) s = Some s' \<and> lock_free s'"
    if "closed_lock s = Some w" "\<not> panicked s" for w
  proof -
    from inv that(1) have "holds w s" by (simp add: session_inv_def owner_inv_def)
    from holds_cases[OF this] show ?thesis
    proof (elim disjE exE conjE)
      fix t assume w: "w = Caller t" and c: "in_crit (callers s t)"
      from crit_outside_connect[OF c] 1
      have "(\<exists>r. callers s t = C_Return r) \<or> (\<exists>v. callers s t = K_Body v)" by simp
      with w that(2) show ?thesis by (auto simp: exec_def prim_defs)
    next
      assume "w = Closer" and "closer_rank (closer s) = 3"
      with inv assms(2) show ?thesis by (simp add: session_inv_def closer_inv_def)
    next
      fix v assume "w = Ticker" and "ticker s = T_Cancel_Body v"
      with that(2) show ?thesis by (simp add: exec_def prim_defs)
    qed
  qed
  have 3: "\<exists>s'. run [(Caller t, i1), (Caller t, i2)] s = Some s' \<and>
               callers s' t = C_Done (Some ErrClosed) \<and>
               connections s' = connections s \<and> conn_Len s' = conn_Len s \<and>
               tm_tasks s' = tm_tasks s \<and> trace s' = trace s \<and> closed s'"
    if "callers s t = C_Enter cd" "lock_free s" "\<not> panicked s" for t cd
    using that assms(2) by (simp add: exec_def prim_defs conn_Len_def)
  show ?thesis using 1 2 3 by blast
qed

theorem Connect_on_closed_session_witness:
  "reachable (Run (newSession ''s1'' ''1.0'' False ''/opt/juice'')) late_call_state \<and>
   closed late_call_state \<and> callers late_call_state 1 = C_Enter example_conn \<and>
   lock_free late_call_state \<and> \<not> panicked late_call_state \<and>
   \<not> in_connect (callers late_call_state 0) \<and>
   (\<exists>s'. run [(Caller 1, NoIn), (Caller 1, NoIn)] late_call_state = Some s' \<and>
      callers s' 1 = C_Done (Some ErrClosed) \<and>
      connections s' = [(''c1'', example_conn)] \<and> conn_Len s' = 1) \<and>
   reachable (Run (newSession ''s1'' ''1.0'' False ''/opt/juice'')) late_locked_state \<and>
   closed late_locked_state \<and> closed_lock late_locked_state = Some (Caller 1) \<and>
   (\<exists>s'. exec (Caller 1, NoIn) late_locked_state = Some s' \<and> lock_free s')"
  using Connect_on_closed_session[OF late_call_state_reachable late_call_state_fields(1),
      of NoIn NoIn NoIn]
    Connect_on_closed_session[OF late_locked_state_reachable late_locked_state_fields(1),
      of NoIn NoIn NoIn]
    late_call_state_reachable late_call_state_fields
    late_locked_state_reachable late_locked_state_fields
  by (auto simp: conn_Len_def)

section \<open>Connect when the connection cannot be started\<close>

text \<open>
  Claim C8. On an open session, a call of \<^verbatim>\<open>Connect\<close> for a connection that is
  not in the map, whose \<^verbatim>\<open>connection.Start\<close> fails with \<open>e\<close>, returns at once
  the error of line 160 wrapping \<open>e\<close>: none of its four steps can block once the lock is
  taken, and after them the connection map and the units under the task manager are
  unchanged (nothing is registered, no watcher is spawned), the trace is unchanged (no
  signal was sent, no \<open>ConnectionCreated\<close> was emitted), the ticker has received nothing,
  and the lock is free again.
\<close>

theorem Connect_start_failure:
  assumes "\<not> closed s" and "callers s t = C_Enter cd" and "lock_free s" and "\<not> panicked s"
    and "conn_Get (Id_conn cd) s = None"
  shows "\<exists>s'. run [(Caller t, i1), (Caller t, i2), (Caller t, ErrIn (Some e)), (Caller t, i3)] s = Some s' \<and>
           callers s' t = C_Done (Some (Wrapped (connect_failed s cd) e)) \<and>
           connections s' = connections s \<and> tm_tasks s' = tm_tasks s \<and>
           trace s' = trace s \<and> ticker s' = ticker s \<and> lock_free s'"
  using assms by (simp add: exec_def prim_defs connect_failed_def)

theorem Connect_start_failure_witness:
  "\<not> closed second_call_state \<and> callers second_call_state 1 = C_Enter other_conn \<and>
   lock_free second_call_state \<and> \<not> panicked second_call_state \<and>
   conn_Get (Id_conn other_conn) second_call_state = None \<and>
   (\<exists>s'. run [(Caller 1, NoIn), (Caller 1, NoIn), (Caller 1, ErrIn (Some (External ''exec failed''))),
               (Caller 1, NoIn)] second_call_state = Some s' \<and>
      callers s' 1 =
        C_Done (Some (Wrapped ''session s1 connection c2 failed to connect'' (External ''exec failed''))) \<and>
      connections s' = [(''c1'', example_conn)])"
  using Connect_start_failure[OF second_call_state_fields(1-5), of NoIn NoIn "External ''exec failed''" NoIn]
    second_call_state_fields
  by (auto simp: connect_failed_def other_conn_def)

section \<open>The teardown sequence\<close>

text \<open>
  Claim C2 says that the GPU reservation is released exactly once for every session,
  whatever cancellations occur. The code does not keep that. \<^verbatim>\<open>Connect\<close> holds the
  lock of the closed flag while it sends on \<^verbatim>\<open>connectionsChanged\<close> (line 198).
  When the ticker cannot take the send, because the session is persistent and has no
  ticker, or because the ticker has taken a tick of its timer and waits for that same lock
  inside \<^verbatim>\<open>Cancel\<close> (line 124), the call stays at line 198 after every further
  execution, with any number of cancellations in it: the flag is never set (line 98 needs
  the lock), \<^verbatim>\<open>Wait\<close> never returns, and the reservation is released zero times.
\<close>

theorem release_never_after_blocked_send:
  assumes "reachable (Run (newSession i v p j)) s" and "callers s t = C_Send cd"
    and "ticker s = T_None \<or> ticker s = T_Cancel_Enter" and "run as s = Some s'"
  shows "callers s' t = C_Send cd \<and> exec (Caller t, inp) s' = None \<and>
         \<not> closed s' \<and> count_list (trace s') GpuRelease = 0 \<and>
         filter closer_obs (trace s') = [] \<and> closer_rank (closer s') < 5"
proof -
  have r: "reachable (Run (newSession i v p j)) s'"
    using run_reachable[OF assms(1,4)] .
  have g: "session_inv s'" using reachable_session_inv[OF r] .
  have b: "callers s' t = C_Send cd" "ticker s' = ticker s"
    using blocked_run[OF assms] by simp_all
  from b(2) assms(3) have ns: "ticker s' \<noteq> T_Select" by auto
  have blocked: "exec (Caller t, inp) s' = None"
    using send_blocked(1)[OF g ns b(1)] .
  from b(1) have "in_connect (callers s' t)" by simp
  with g have nc: "\<not> closed s'" by (auto simp: session_inv_def closed_inv_def)
  with g have rank: "closer_rank (closer s') < 5" by (auto simp: session_inv_def closer_inv_def)
  have proj: "filter closer_obs (trace s') = take (closer_events (closer s')) (teardown s')"
    using closer_projection[OF r] .
  from rank have "closer_events (closer s') = 0" by (cases "closer s'") simp_all
  with proj have e: "filter closer_obs (trace s') = []" by simp
  have "count_list (trace s') GpuRelease = count_list (filter closer_obs (trace s')) GpuRelease"
    by (simp add: count_list_filter)
  with e have z: "count_list (trace s') GpuRelease = 0" by simp
  from b(1) blocked nc z e rank show ?thesis by simp
qed

theorem release_never_after_blocked_send_witness:
  "reachable (Run (newSession ''s1'' ''1.0'' True ''/opt/juice'')) persistent_blocked_state \<and>
   callers persistent_blocked_state 0 = C_Send example_conn \<and>
   ticker persistent_blocked_state = T_None \<and>
   run trigger_run persistent_blocked_state = Some persistent_triggered_state \<and>
   group_cancelled persistent_triggered_state \<and> tm_cancelled persistent_triggered_state \<and>
   callers persistent_triggered_state 1 = K_Enter \<and>
   exec (Closer, NoIn) persistent_triggered_state = None \<and>
   exec (Caller 0, NoIn) persistent_triggered_state = None \<and>
   \<not> closed persistent_triggered_state \<and>
   count_list (trace persistent_triggered_state) GpuRelease = 0 \<and>
   reachable (Run (newSession ''s1'' ''1.0'' False ''/opt/juice'')) ticked_state \<and>
   callers ticked_state 0 = C_Send example_conn \<and> ticker ticked_state = T_Cancel_Enter \<and>
   run trigger_run ticked_state = Some ticked_triggered_state \<and>
   group_cancelled ticked_triggered_state \<and> tm_cancelled ticked_triggered_state \<and>
   exec (Ticker, NoIn) ticked_triggered_state = None \<and>
   exec (Caller 0, NoIn) ticked_triggered_state = None \<and>
   \<not> closed ticked_triggered_state \<and>
   count_list (trace ticked_triggered_state) GpuRelease = 0"
  using release_never_after_blocked_send[OF persistent_blocked_state_reachable
      persistent_blocked_state_fields(1) disjI1[OF persistent_blocked_state_ticker]
      persistent_triggered_state_run, of NoIn]
    release_never_after_blocked_send[OF ticked_state_reachable ticked_state_fields(1)
      disjI2[OF ticked_state_fields(2)] ticked_triggered_state_run, of NoIn]
    persistent_blocked_state_reachable persistent_blocked_state_fields
    persistent_blocked_state_ticker persistent_triggered_state_run
    persistent_triggered_state_fields ticked_state_reachable ticked_state_fields
    ticked_triggered_state_run ticked_triggered_state_fields
  by simp

text \<open>
  What every execution does keep: the reservation has been released at most once; no
  release happens before \<^verbatim>\<open>Wait\<close> has returned; from the return of
  \<^verbatim>\<open>Wait\<close> on, every unit under the session's task manager has finished; once
  \<^verbatim>\<open>Wait\<close> has returned, the remaining four steps of the closing watcher cannot
  block and release the reservation exactly once; and when the closing watcher has
  returned, the reservation has been released exactly once.
\<close>

theorem release_at_most_once:
  assumes "reachable (Run (newSession i v p j)) s"
  shows "count_list (trace s) GpuRelease \<le> 1 \<and>
         only_after WaitReturned GpuRelease (trace s) \<and>
         (WaitReturned \<in> set (trace s) \<longrightarrow> tm_Wait_ready s) \<and>
         (\<forall>r. closer s = CL_CloseChanged r \<and> \<not> panicked s \<longrightarrow>
            (\<exists>s'. run [(Closer, i1), (Closer, i2), (Closer, i3), (Closer, i4)] s = Some s' \<and>
               closer s' = CL_Done r \<and> count_list (trace s') GpuRelease = 1)) \<and>
         (\<forall>r. closer s = CL_Done r \<longrightarrow> count_list (trace s) GpuRelease = 1)"
proof -
  have g: "session_inv s" using reachable_session_inv[OF assms] .
  have proj: "filter closer_obs (trace s) = take (closer_events (closer s)) (teardown s)"
    using closer_projection[OF assms] .
  have c: "count_list (trace s) GpuRelease = count_list (filter closer_obs (trace s)) GpuRelease"
    by (simp add: count_list_filter)
  have o: "only_after WaitReturned GpuRelease (trace s) =
           only_after WaitReturned GpuRelease (filter closer_obs (trace s))"
    by (simp add: only_after_filter)
  have w: "WaitReturned \<in> set (trace s) \<longleftrightarrow> WaitReturned \<in> set (filter closer_obs (trace s))"
    by simp
  have ready: "6 \<le> closer_rank (closer s) \<longrightarrow> tm_Wait_ready s"
    using g by (simp add: session_inv_def wait_inv_def)
  have chans: "connectionsChanged_closed s \<longleftrightarrow> 7 \<le> closer_rank (closer s)"
    "sessionClosing_closed s \<longleftrightarrow> 8 \<le> closer_rank (closer s)"
    using g by (simp_all add: session_inv_def closer_inv_def)
  have safe: "count_list (trace s) GpuRelease \<le> 1 \<and>
         only_after WaitReturned GpuRelease (trace s) \<and>
         (WaitReturned \<in> set (trace s) \<longrightarrow> tm_Wait_ready s) \<and>
         (\<forall>r. closer s = CL_Done r \<longrightarrow> count_list (trace s) GpuRelease = 1)"
    unfolding c o w proj using ready
    by (cases "closer s") (simp_all add: teardown_def)
  have live: "\<exists>s'. run [(Closer, i1), (Closer, i2), (Closer, i3), (Closer, i4)] s = Some s' \<and>
               closer s' = CL_Done r \<and> count_list (trace s') GpuRelease = 1"
    if "closer s = CL_CloseChanged r" and "\<not> panicked s" for r
  proof -
    from that(1) proj c have "count_list (trace s) GpuRelease = 0"
      by (simp add: teardown_def)
    with that chans show ?thesis
      by (simp add: exec_def record_obs_def count_list_snoc)
  qed
  show ?thesis using safe live by blast
qed

theorem release_at_most_once_example:
  "reachable (Run (newSession ''s1'' ''1.0'' False ''/opt/juice'')) waited_state \<and>
   closer waited_state = CL_CloseChanged None \<and> \<not> panicked waited_state \<and>
   (\<exists>s'. run [(Closer, NoIn), (Closer, NoIn), (Closer, NoIn), (Closer, NoIn)] waited_state = Some s' \<and>
      closer s' = CL_Done None \<and> count_list (trace s') GpuRelease = 1) \<and>
   reachable (Run (newSession ''s1'' ''1.0'' False ''/opt/juice'')) torn_down_state \<and>
   closer torn_down_state = CL_Done None \<and>
   WaitReturned \<in> set (trace torn_down_state) \<and>
   count_list (trace torn_down_state) GpuRelease = 1 \<and>
   only_after WaitReturned GpuRelease (trace torn_down_state) \<and>
   tm_Wait_ready torn_down_state"
  using release_at_most_once[OF waited_state_reachable, of NoIn NoIn NoIn NoIn]
    release_at_most_once[OF torn_down_state_reachable, of NoIn NoIn NoIn NoIn]
    waited_state_reachable waited_state_fields torn_down_state_reachable torn_down_state_fields
  by simp

text \<open>
  Claim C3. The observations of the closing watcher in the trace of a reachable state are
  an initial part of the sequence: the flag is set, \<^verbatim>\<open>Wait\<close> returns, the GPU
  reservation is released, \<open>SessionClosed\<close> is emitted. So the four happen in this order,
  each at most once, and none of them before the ones that precede it in the sequence.
\<close>

theorem teardown_order:
  assumes "reachable (Run (newSession i v p j)) s"
  shows "prefix (filter closer_obs (trace s))
           [SetClosed, WaitReturned, GpuRelease, Emit (SessionClosed (Id_session s))]"
  using closer_projection[OF assms] by (simp add: teardown_def take_is_prefix)

theorem teardown_order_witness:
  "reachable (Run (newSession ''s1'' ''1.0'' False ''/opt/juice'')) torn_down_state \<and>
   filter closer_obs (trace torn_down_state) =
     [SetClosed, WaitReturned, GpuRelease, Emit (SessionClosed ''s1'')]"
  using teardown_order[OF torn_down_state_reachable] torn_down_state_reachable
    torn_down_state_fields
  by simp

section \<open>The closed flag\<close>

text \<open>
  Claim C5. Along every execution from a reachable state the closed flag, once true,
  stays true; it has been set at most once, and it is true exactly when it has been set;
  the only step of the system that changes it is line 98 of the closing watcher, so no
  step of \<^verbatim>\<open>Cancel\<close>, whoever calls it, writes the flag.
\<close>

theorem closed_flag_monotonic:
  assumes "reachable (Run (newSession i v p j)) s" and "run as s = Some s'"
  shows "(closed s \<longrightarrow> closed s') \<and>
         count_list (trace s') SetClosed \<le> 1 \<and>
         (closed s' \<longleftrightarrow> SetClosed \<in> set (trace s')) \<and>
         (\<forall>a s1 s2. exec a s1 = Some s2 \<and> closed s2 \<noteq> closed s1 \<longrightarrow>
            fst a = Closer \<and> closer s1 = CL_SetClosed \<and> closed s2)"
proof -
  have r: "reachable (Run (newSession i v p j)) s'"
    using run_reachable[OF assms] .
  have g: "session_inv s'" using reachable_session_inv[OF r] .
  have proj: "filter closer_obs (trace s') = take (closer_events (closer s')) (teardown s')"
    using closer_projection[OF r] .
  have c: "count_list (trace s') SetClosed = count_list (filter closer_obs (trace s')) SetClosed"
    by (simp add: count_list_filter)
  have w: "SetClosed \<in> set (trace s') \<longleftrightarrow> SetClosed \<in> set (filter closer_obs (trace s'))"
    by simp
  have cl: "closed s' \<longleftrightarrow> 5 \<le> closer_rank (closer s')"
    using g by (simp add: session_inv_def closer_inv_def)
  have "count_list (trace s') SetClosed \<le> 1 \<and> (closed s' \<longleftrightarrow> SetClosed \<in> set (trace s'))"
    unfolding c w proj cl by (cases "closer s'") (simp_all add: teardown_def)
  moreover have "closed s \<longrightarrow> closed s'" using closed_run[OF assms(2)] by simp
  moreover have "\<forall>a s1 s2. exec a s1 = Some s2 \<and> closed s2 \<noteq> closed s1 \<longrightarrow>
            fst a = Closer \<and> closer s1 = CL_SetClosed \<and> closed s2"
    using closed_step by blast
  ultimately show ?thesis by blast
qed

theorem closed_flag_monotonic_witness:
  "reachable (Run (newSession ''s1'' ''1.0'' False ''/opt/juice'')) connected_state \<and>
   run teardown_run connected_state = Some torn_down_state \<and>
   \<not> closed connected_state \<and> closed torn_down_state \<and>
   count_list (trace torn_down_state) SetClosed = 1 \<and>
   SetClosed \<in> set (trace torn_down_state) \<and>
   closer cancelled_state = CL_SetClosed \<and> \<not> closed cancelled_state \<and>
   map_option closed (exec (Closer, NoIn) cancelled_state) = Some True"
  using closed_flag_monotonic[OF connected_state_reachable torn_down_state_run]
    connected_state_reachable torn_down_state_run torn_down_state_fields cancelled_state_fields
  by (simp add: connected_state_def example_defs)

section \<open>The connections-changed signal\<close>

text \<open>
  Claim C4. A send on \<^verbatim>\<open>connectionsChanged\<close> completes only together with the
  receive of the ticker, and a session runs a ticker exactly when it is not persistent.
  So in a persistent session no signal is ever received and no \<open>ConnectionCreated\<close> or
  \<open>ConnectionClosed\<close> is ever emitted; a call of \<^verbatim>\<open>Connect\<close> that has reached
  the send of line 198, and a watcher that has reached the send of line 190, is still
  there after any further execution, and it cannot move: the channel is not closed under
  it either, so it does not even panic.
\<close>

theorem persistent_send_stalls:
  assumes "reachable (Run (newSession i v p j)) s" and "run as s = Some s'"
  shows "(ticker s' = T_None \<longleftrightarrow> p) \<and>
         (p \<longrightarrow> filter conn_obs (trace s') = [] \<and>
            (\<forall>t cd. callers s t = C_Send cd \<longrightarrow>
               callers s' t = C_Send cd \<and> (\<forall>inp. exec (Caller t, inp) s' = None)) \<and>
            (\<forall>k cd c. k < length (tm_tasks s) \<and> tm_tasks s ! k = W_Send cd c \<longrightarrow>
               k < length (tm_tasks s') \<and> tm_tasks s' ! k = W_Send cd c \<and>
               (\<forall>inp. exec (Watcher k, inp) s' = None)))"
proof -
  have r: "reachable (Run (newSession i v p j)) s'"
    using run_reachable[OF assms] .
  have m: "mode_inv s'" "persistent_inv s'" "Persistent s' = p"
    using reachable_mode[OF r] by simp_all
  have g: "session_inv s'" using reachable_session_inv[OF r] .
  have 1: "ticker s' = T_None \<longleftrightarrow> p" using m by (simp add: mode_inv_def)
  have 2: "filter conn_obs (trace s') = []" if p
    using that 1 m(2) by (simp add: persistent_inv_def)
  have ns: "ticker s' \<noteq> T_Select" if p using that 1 by simp
  have 3: "callers s' t = C_Send cd \<and> (\<forall>inp. exec (Caller t, inp) s' = None)"
    if p and "callers s t = C_Send cd" for t cd
  proof -
    from that(1) assms(1) have "reachable (Run (newSession i v True j)) s" by simp
    from stalled_run[OF this assms(2)] that(2) have "callers s' t = C_Send cd" by blast
    with send_blocked(1)[OF g ns[OF that(1)]] show ?thesis by blast
  qed
  have 4: "k < length (tm_tasks s') \<and> tm_tasks s' ! k = W_Send cd c \<and>
           (\<forall>inp. exec (Watcher k, inp) s' = None)"
    if p and "k < length (tm_tasks s) \<and> tm_tasks s ! k = W_Send cd c" for k cd c
  proof -
    from that(1) assms(1) have "reachable (Run (newSession i v True j)) s" by simp
    from stalled_run[OF this assms(2)] that(2)
    have "k < length (tm_tasks s') \<and> tm_tasks s' ! k = W_Send cd c" by blast
    with send_blocked(2)[OF g ns[OF that(1)]] show ?thesis by blast
  qed
  show ?thesis using 1 2 3 4 by blast
qed

theorem persistent_send_stalls_witness:
  "reachable (Run (newSession ''s1'' ''1.0'' True ''/opt/juice'')) persistent_blocked_state \<and>
   run persistent_later_run persistent_blocked_state = Some persistent_later_state \<and>
   callers persistent_blocked_state 0 = C_Send example_conn \<and>
   tm_tasks persistent_blocked_state ! 0 = W_Send example_conn 0 \<and>
   ticker persistent_later_state = T_None \<and>
   filter conn_obs (trace persistent_later_state) = [] \<and>
   callers persistent_later_state 0 = C_Send example_conn \<and>
   exec (Caller 0, NoIn) persistent_later_state = None \<and>
   tm_tasks persistent_later_state ! 0 = W_Send example_conn 0 \<and>
   exec (Watcher 0, NoIn) persistent_later_state = None"
  using persistent_send_stalls[OF persistent_blocked_state_reachable persistent_later_state_run]
    persistent_blocked_state_reachable persistent_later_state_run persistent_blocked_state_fields
  by simp

section \<open>The idle ticker\<close>

text \<open>
  Claim C6, as stated, fails: thread 0 has put \<open>c1\<close> into the map (line 197) and waits
  for the ticker to take its signal (line 198); the session is not persistent, the closing
  signal has not fired, the map is not empty, and the timer is still counting: its tick
  can be taken in this state, and sends the ticker into \<^verbatim>\<open>Cancel\<close>.
\<close>

theorem idle_timer_counterexample:
  "reachable (Run (newSession ''s1'' ''1.0'' False ''/opt/juice'')) racing_state \<and>
   \<not> Persistent racing_state \<and> \<not> sessionClosing_closed racing_state \<and>
   \<not> conn_Empty racing_state \<and> counting (timer racing_state) \<and>
   \<not> (counting (timer racing_state) \<longleftrightarrow> \<not> Persistent racing_state \<and> conn_Empty racing_state) \<and>
   map_option ticker (exec (Ticker, SelTick) racing_state) = Some T_Cancel_Enter"
  using racing_state_reachable racing_state_fields
  by (simp add: conn_Empty_def exec_def racing_state_def racing_run_def example_defs)

text \<open>
  Claim C6, amended. In every reachable state of a started session: a tick of the armed
  timer makes the ticker run \<^verbatim>\<open>Cancel\<close> (the three steps of line 124 change the
  state as the body of \<^verbatim>\<open>Cancel\<close> does, and the ticker is back at its
  \<^verbatim>\<open>select\<close>); after a connections-changed signal the ticker resets the timer to
  a fresh period of 30 seconds if the map is empty and stops it otherwise; and whenever
  the ticker is not starting, handling a signal or finished, and no sender waits on
  \<^verbatim>\<open>connectionsChanged\<close>, the timer is counting exactly when the session is not
  persistent and the map is empty.
\<close>

theorem idle_timer_when_quiescent:
  assumes "reachable (Run (newSession i v p j)) s"
  shows "(ticker s = T_Select \<and> counting (timer s) \<and> lock_free s \<and> \<not> panicked s \<longrightarrow>
            run [(Ticker, SelTick), (Ticker, i1), (Ticker, i2)] s = Some (Cancel_body (closed s) s)) \<and>
         (ticker s = T_Eval \<and> \<not> panicked s \<longrightarrow>
            exec (Ticker, i3) s =
              Some (s\<lparr>timer := (if conn_Empty s then Armed 30 else Stopped), ticker := T_Select\<rparr>)) \<and>
         (ticker s \<noteq> T_Start \<and> ticker s \<noteq> T_Eval \<and> ticker s \<noteq> T_Done \<and> \<not> pending s \<longrightarrow>
            (counting (timer s) \<longleftrightarrow> \<not> p \<and> conn_Empty s))"
proof -
  have m: "ticker s = T_None \<longleftrightarrow> p"
    using reachable_mode[OF assms] by (simp add: mode_inv_def)
  have idle: "idle_inv s" using reachable_idle[OF assms] .
  have 1: "run [(Ticker, SelTick), (Ticker, i1), (Ticker, i2)] s = Some (Cancel_body (closed s) s)"
    if "ticker s = T_Select" "counting (timer s)" "lock_free s" "\<not> panicked s"
    using that by (cases "timer s") (simp_all add: exec_def prim_defs)
  have 2: "exec (Ticker, i3) s =
              Some (s\<lparr>timer := (if conn_Empty s then Armed 30 else Stopped), ticker := T_Select\<rparr>)"
    if "ticker s = T_Eval" "\<not> panicked s"
    using that by (simp add: exec_def)
  have 3: "counting (timer s) \<longleftrightarrow> \<not> p \<and> conn_Empty s"
    if "ticker s \<noteq> T_Start" "ticker s \<noteq> T_Eval" "ticker s \<noteq> T_Done" "\<not> pending s"
  proof (cases p)
    case True
    with m idle show ?thesis by (simp add: idle_inv_def)
  next
    case False
    with m that ticker_idle_cases[of "ticker s"] have "ticker_idle (ticker s)" by auto
    with idle that(4) False show ?thesis by (simp add: idle_inv_def)
  qed
  show ?thesis using 1 2 3 by blast
qed

theorem idle_timer_when_quiescent_witness:
  "reachable (Run (newSession ''s1'' ''1.0'' False ''/opt/juice'')) ticking_state \<and>
   ticker ticking_state = T_Select \<and> counting (timer ticking_state) \<and> \<not> pending ticking_state \<and>
   conn_Empty ticking_state \<and>
   run [(Ticker, SelTick), (Ticker, NoIn), (Ticker, NoIn)] ticking_state =
     Some (ticking_state\<lparr>tm_cancelled := True\<rparr>) \<and>
   reachable (Run (newSession ''s1'' ''1.0'' False ''/opt/juice'')) signalled_state \<and>
   ticker signalled_state = T_Eval \<and>
   exec (Ticker, NoIn) signalled_state = Some (signalled_state\<lparr>timer := Stopped, ticker := T_Select\<rparr>) \<and>
   reachable (Run (newSession ''s1'' ''1.0'' False ''/opt/juice'')) connected_state \<and>
   ticker connected_state = T_Select \<and> \<not> pending connected_state \<and>
   \<not> counting (timer connected_state) \<and> \<not> conn_Empty connected_state"
  using idle_timer_when_quiescent[OF ticking_state_reachable, of NoIn NoIn NoIn]
    idle_timer_when_quiescent[OF signalled_state_reachable, of NoIn NoIn NoIn]
    idle_timer_when_quiescent[OF connected_state_reachable, of NoIn NoIn NoIn]
    ticking_state_reachable signalled_state_reachable connected_state_reachable
    ticking_state_fields signalled_state_fields connected_state_fields
  by (simp add: pending_def any_send_def conn_Empty_def Cancel_body_def tm_Cancel_def)

section \<open>The watcher of a connection\<close>

text \<open>
  Claim C7 says that the watcher of a connection eventually removes it from the map and
  emits \<open>ConnectionClosed\<close>. The code does not keep that: the watcher is spawned at line
  182, before the connection is put into the map at line 197. In this execution the
  connection ends at once with exit code 1: the watcher deletes \<open>c1\<close> from the map,
  where it is not yet, signals, emits \<open>ConnectionClosed\<close> and returns; then thread 0
  puts \<open>c1\<close> into the map. The session is torn down completely, and \<open>c1\<close> is still in
  the map, with its only watcher finished.
\<close>

theorem watcher_before_Set_leaves_connection:
  "run (stale_run @ stale_teardown_run) (example_session False) = Some stale_closed_state \<and>
   tm_tasks stale_closed_state = [W_Done] \<and>
   closer stale_closed_state = CL_Done None \<and>
   connections stale_closed_state = [(''c1'', example_conn)] \<and>
   trace stale_closed_state =
     [Signal (Watcher 0), Emit (ConnectionClosed ''s1'' example_conn 1),
      Signal (Caller 0), Emit (ConnectionCreated ''s1'' example_conn),
      SetClosed, WaitReturned, GpuRelease, Emit (SessionClosed ''s1'')]"
  by (simp add: run_append stale_closed_state_def stale_state_def stale_run_def stale_teardown_run_def example_defs)

section \<open>Admission of sessions\<close>

text \<open>
  Claim C9. \<^verbatim>\<open>requestSessionEp\<close> rejects a readable request whenever the current
  number of sessions plus one is at least \<open>maxSessions\<close>: it logs the error and starts no
  session. It calls \<^verbatim>\<open>agent.startSession\<close> exactly when the request is readable
  and the number of sessions plus one is below \<open>maxSessions\<close>; so, whatever
  \<open>maxSessions\<close> is, the session it admits is at most number \<open>maxSessions - 1\<close>, never
  number \<open>maxSessions\<close>.
\<close>

theorem requestSession_admits_below_limit:
  "(sessions_Len agent + 1 \<ge> maxSessions agent \<and> ReadRequestBody env = Inr r \<longrightarrow>
      requestSessionEp agent env =
        [LogError (New ''unable to add another session''), ReleaseSelected]) \<and>
   (StartSession \<in> set (requestSessionEp agent env) \<longleftrightarrow>
      (\<exists>r. ReadRequestBody env = Inr r) \<and> sessions_Len agent + 1 < maxSessions agent) \<and>
   (StartSession \<in> set (requestSessionEp agent env) \<longrightarrow>
      sessions_Len agent + 1 \<le> maxSessions agent - 1 \<and>
      sessions_Len agent + 1 \<noteq> maxSessions agent)"
  by (auto simp: requestSessionEp_def split: sum.splits option.splits)

theorem requestSession_admits_below_limit_witness:
  "sessions_Len full_agent + 1 \<ge> maxSessions full_agent \<and>
   ReadRequestBody example_request = Inr ''{}'' \<and>
   requestSessionEp full_agent example_request =
     [LogError (New ''unable to add another session''), ReleaseSelected] \<and>
   StartSession \<in> set (requestSessionEp free_agent example_request) \<and>
   sessions_Len free_agent + 1 = maxSessions free_agent - 1"
  using requestSession_admits_below_limit[of full_agent example_request "''{}''"]
    requestSession_admits_below_limit[of free_agent example_request "''{}''"]
  by (simp add: full_agent_def free_agent_def example_request_def)

section \<open>Connecting to a session that does not exist\<close>

text \<open>
  Claim C10. When \<^verbatim>\<open>agent.getSession\<close> returns a nil session and a nil error,
  \<^verbatim>\<open>connectSessionEp\<close> responds with status 400 and goes on: its next action is
  the cast of the response writer to a hijacker. When the cast and the hijack succeed,
  it calls \<^verbatim>\<open>Connect\<close> on the nil session, and the handler ends in a nil
  dereference.
\<close>

theorem connect_missing_session:
  assumes "getSession env = (None, None)"
  shows "(\<exists>rest. fst (connectSessionEp env) = Respond 400 Body_empty # CastHijacker # rest) \<and>
         (Cast_result env = None \<and> Hijack_result env = None \<longrightarrow>
            connectSessionEp env =
              ([Respond 400 Body_empty, CastHijacker, Hijack, ConnectSession None],
               Panic_nil_dereference))"
  using assms by (auto simp: connectSessionEp_def Let_def split: option.splits)

theorem connect_missing_session_witness:
  "getSession missing_session_request = (None, None) \<and>
   Cast_result missing_session_request = None \<and> Hijack_result missing_session_request = None \<and>
   connectSessionEp missing_session_request =
     ([Respond 400 Body_empty, CastHijacker, Hijack, ConnectSession None], Panic_nil_dereference)"
  using connect_missing_session[of missing_session_request]
  by (simp add: missing_session_request_def)

end
